theory Spec2Isabelle
  imports Main "HOL-Library.Word" "HOL-Library.Code_Target_Nat"
begin

section \<open>Fixed-width arithmetic\<close>

text \<open>
  Sizes and offsets of the C++ source are \<open>size_t\<close> (64 bit) and \<open>uint32_t\<close> values.
  They are modelled as natural numbers, and every place where the source converts or
  computes at a fixed width is written out with one of the functions below.
\<close>

definition u32 :: "nat \<Rightarrow> nat" where
  "u32 x = x mod 2 ^ 32"

definition u64 :: "nat \<Rightarrow> nat" where
  "u64 x = x mod 2 ^ 64"

definition u32_sub :: "nat \<Rightarrow> nat \<Rightarrow> nat" where
  \<comment> \<open>\<open>a - b\<close> on \<open>uint32_t\<close>: wraps below zero\<close>
  "u32_sub a b = (u32 a + 2 ^ 32 - u32 b) mod 2 ^ 32"

definition u64_sub :: "nat \<Rightarrow> nat \<Rightarrow> nat" where
  \<comment> \<open>\<open>a - b\<close> on \<open>size_t\<close>: wraps below zero\<close>
  "u64_sub a b = (u64 a + 2 ^ 64 - u64 b) mod 2 ^ 64"

section \<open>Errors and raw arrays\<close>

text \<open>
  What the C++ leaves undefined (an access outside an array, a read of memory that was
  never written, a pointer into storage that was replaced) and what it aborts on
  (\<open>CHECK\<close>) are error values of the model. \<open>DCHECK\<close>s are compiled out of release
  builds and are not part of the functions; theorems name them as hypotheses.
\<close>

datatype error = CheckFailed | OutOfBounds | Uninitialized | DanglingEnd

text \<open>
  \<open>Zone::NewArray\<close> returns memory that was not initialised: an array cell is
  \<open>None\<close> until it is written.
\<close>

definition NewArray :: "nat \<Rightarrow> 'a option list" where
  "NewArray n = replicate n None"

definition array_get :: "'a option list \<Rightarrow> nat \<Rightarrow> error + 'a" where
  "array_get xs i =
     (if i < length xs
      then (case xs ! i of None \<Rightarrow> Inl Uninitialized | Some v \<Rightarrow> Inr v)
      else Inl OutOfBounds)"

definition array_set :: "'a option list \<Rightarrow> nat \<Rightarrow> 'a \<Rightarrow> error + 'a option list" where
  "array_set xs i v = (if i < length xs then Inr (xs[i := Some v]) else Inl OutOfBounds)"

definition memcpy :: "'a list \<Rightarrow> 'a list \<Rightarrow> nat \<Rightarrow> error + 'a list" where
  \<comment> \<open>\<open>memcpy(dst, src, n)\<close>, counted in array elements\<close>
  "memcpy dst src n =
     (if n \<le> length dst \<and> n \<le> length src then Inr (take n src @ drop n dst)
      else Inl OutOfBounds)"

section \<open>Identifiers\<close>

text \<open>
  Modelled from the spec: \<open>OpIndex\<close>, \<open>BlockIndex\<close>, \<open>OperationStorageSlot\<close> and
  \<open>kSlotsPerId\<close> are declared in \<open>operations.h\<close>, which is not among the source files.
  An \<open>OpIndex\<close> is "an opaque handle encoding a byte offset into the arena": here the
  \<open>uint32_t\<close> offset itself. A storage slot has 8 bytes (graph.h: "an array of 8-byte
  \<open>OperationStorageSlot\<close> values"). The size table has one entry per \<open>kSlotsPerId\<close>
  slots (graph.h allocates \<open>capacity / kSlotsPerId\<close> entries), so the table index
  \<open>id()\<close> of an identifier is its slot number divided by \<open>kSlotsPerId\<close>. The constant
  \<open>kSlotsPerId\<close> is a parameter of every function that uses it. The invalid
  identifier is the largest \<open>uint32_t\<close>.
\<close>

type_synonym OpIndex = nat

type_synonym BlockIndex = nat

definition sizeof_OperationStorageSlot :: nat where
  "sizeof_OperationStorageSlot = 8"

definition OpIndex_id :: "nat \<Rightarrow> OpIndex \<Rightarrow> nat" where
  "OpIndex_id kSlotsPerId idx = idx div sizeof_OperationStorageSlot div kSlotsPerId"

definition OpIndex_Invalid :: OpIndex where
  "OpIndex_Invalid = 2 ^ 32 - 1"

definition BlockIndex_Invalid :: BlockIndex where
  "BlockIndex_Invalid = 2 ^ 32 - 1"

section \<open>OperationBuffer\<close>

text \<open>
  The three pointers \<open>begin_\<close>, \<open>end_\<close> and \<open>end_cap_\<close> point into one array.
  The model keeps the array (\<open>ob_storage\<close>, whose length is \<open>end_cap_ - begin_\<close>) and
  \<open>end_ - begin_\<close> in slots (\<open>ob_end\<close>); a slot pointer is a slot number of the array.
  \<open>ob_begin\<close> tells the arrays apart that \<open>begin_\<close> has pointed to: it counts the
  reallocations, so a pointer saved before a \<open>Grow\<close> can be recognised as stale.
\<close>

record OperationBuffer =
  ob_begin :: nat
  ob_storage :: "64 word option list"
  ob_end :: nat
  ob_operation_sizes :: "16 word option list"

definition OperationBuffer_new :: "nat \<Rightarrow> nat \<Rightarrow> OperationBuffer" where
  \<comment> \<open>the constructor \<open>OperationBuffer(zone, initial_capacity)\<close>\<close>
  "OperationBuffer_new kSlotsPerId initial_capacity =
     \<lparr> ob_begin = 0,
       ob_storage = NewArray initial_capacity,
       ob_end = 0,
       ob_operation_sizes = NewArray (u64 (initial_capacity + 1) div kSlotsPerId) \<rparr>"

definition OperationBuffer_size :: "OperationBuffer \<Rightarrow> nat" where
  \<comment> \<open>\<open>size()\<close>\<close>
  "OperationBuffer_size b = u32 (ob_end b)"

definition OperationBuffer_capacity :: "OperationBuffer \<Rightarrow> nat" where
  \<comment> \<open>\<open>capacity()\<close>\<close>
  "OperationBuffer_capacity b = u32 (length (ob_storage b))"

definition Index :: "nat \<Rightarrow> OpIndex" where
  \<comment> \<open>\<open>Index(ptr)\<close>: the byte distance of a slot pointer from \<open>begin_\<close>, as \<open>uint32_t\<close>\<close>
  "Index ptr = u32 (ptr * sizeof_OperationStorageSlot)"

definition Get :: "OpIndex \<Rightarrow> nat" where
  \<comment> \<open>\<open>Get(idx)\<close>: the slot at byte offset \<open>idx.offset()\<close>; \<open>OpIndex\<close> keeps offsets
      multiples of the slot size\<close>
  "Get idx = idx div sizeof_OperationStorageSlot"

definition SlotCount :: "nat \<Rightarrow> OperationBuffer \<Rightarrow> OpIndex \<Rightarrow> error + 16 word" where
  "SlotCount kSlotsPerId b idx = array_get (ob_operation_sizes b) (OpIndex_id kSlotsPerId idx)"

definition BeginIndex :: OpIndex where
  "BeginIndex = 0"

definition EndIndex :: "OperationBuffer \<Rightarrow> OpIndex" where
  "EndIndex b = Index (ob_end b)"

definition Next :: "nat \<Rightarrow> OperationBuffer \<Rightarrow> OpIndex \<Rightarrow> error + OpIndex" where
  "Next kSlotsPerId b idx =
     (case array_get (ob_operation_sizes b) (OpIndex_id kSlotsPerId idx) of
        Inl e \<Rightarrow> Inl e
      | Inr n \<Rightarrow> Inr (u32 (idx + unat n * sizeof_OperationStorageSlot)))"

definition Previous :: "nat \<Rightarrow> OperationBuffer \<Rightarrow> OpIndex \<Rightarrow> error + OpIndex" where
  "Previous kSlotsPerId b idx =
     (case array_get (ob_operation_sizes b) (u32_sub (OpIndex_id kSlotsPerId idx) 1) of
        Inl e \<Rightarrow> Inl e
      | Inr n \<Rightarrow> Inr (u32 (u64_sub idx (unat n * sizeof_OperationStorageSlot))))"

partial_function (option) Grow_loop :: "nat \<Rightarrow> nat \<Rightarrow> nat option" where
  \<comment> \<open>\<open>while (new_capacity < min_capacity) new_capacity *= 2;\<close> on \<open>size_t\<close>\<close>
  "Grow_loop new_capacity min_capacity =
     (if new_capacity < min_capacity then Grow_loop (u64 (new_capacity * 2)) min_capacity
      else Some new_capacity)"

declare Grow_loop.simps [code]

definition Grow :: "nat \<Rightarrow> OperationBuffer \<Rightarrow> nat \<Rightarrow> (error + OperationBuffer) option" where
  "Grow kSlotsPerId b min_capacity =
     (case Grow_loop (u64 (2 * OperationBuffer_capacity b)) min_capacity of
        None \<Rightarrow> None
      | Some new_capacity \<Rightarrow>
          Some (if \<not> new_capacity < (2 ^ 32 - 1) div sizeof_OperationStorageSlot
                then Inl CheckFailed
                else
                  (case memcpy (NewArray new_capacity) (ob_storage b) (OperationBuffer_size b) of
                     Inl e \<Rightarrow> Inl e
                   | Inr new_buffer \<Rightarrow>
                       (case memcpy (NewArray (new_capacity div kSlotsPerId))
                               (ob_operation_sizes b) (OperationBuffer_size b div kSlotsPerId) of
                          Inl e \<Rightarrow> Inl e
                        | Inr new_operation_sizes \<Rightarrow>
                            Inr \<lparr> ob_begin = ob_begin b + 1,
                                  ob_storage = new_buffer,
                                  ob_end = OperationBuffer_size b,
                                  ob_operation_sizes = new_operation_sizes \<rparr>))))"

definition Allocate_store ::
    "nat \<Rightarrow> OperationBuffer \<Rightarrow> nat \<Rightarrow> error + nat \<times> OperationBuffer" where
  \<comment> \<open>\<open>Allocate\<close> after the capacity test: bump \<open>end_\<close>, write both table entries\<close>
  "Allocate_store kSlotsPerId b slot_count =
     (let result = ob_end b;
          idx = Index result
      in case array_set (ob_operation_sizes b) (OpIndex_id kSlotsPerId idx)
                (of_nat slot_count) of
           Inl e \<Rightarrow> Inl e
         | Inr sizes1 \<Rightarrow>
             (case array_set sizes1
                     (u32_sub (OpIndex_id kSlotsPerId
                        (u32 (idx + u32 slot_count * sizeof_OperationStorageSlot))) 1)
                     (of_nat slot_count) of
                Inl e \<Rightarrow> Inl e
              | Inr sizes2 \<Rightarrow>
                  Inr (result, b\<lparr> ob_end := result + slot_count,
                                  ob_operation_sizes := sizes2 \<rparr>)))"

definition Allocate ::
    "nat \<Rightarrow> OperationBuffer \<Rightarrow> nat \<Rightarrow> (error + nat \<times> OperationBuffer) option" where
  "Allocate kSlotsPerId b slot_count =
     (if u64_sub (length (ob_storage b)) (ob_end b) < slot_count
      then (case Grow kSlotsPerId b (u64 (OperationBuffer_capacity b + slot_count)) of
              None \<Rightarrow> None
            | Some (Inl e) \<Rightarrow> Some (Inl e)
            | Some (Inr b1) \<Rightarrow> Some (Allocate_store kSlotsPerId b1 slot_count))
      else Some (Allocate_store kSlotsPerId b slot_count))"

definition RemoveLast :: "nat \<Rightarrow> OperationBuffer \<Rightarrow> error + OperationBuffer" where
  \<comment> \<open>\<open>end_ -= slot_count\<close>; an \<open>end_\<close> before \<open>begin_\<close> is outside the array\<close>
  "RemoveLast kSlotsPerId b =
     (case array_get (ob_operation_sizes b) (u32_sub (OpIndex_id kSlotsPerId (EndIndex b)) 1) of
        Inl e \<Rightarrow> Inl e
      | Inr slot_count \<Rightarrow>
          (if unat slot_count \<le> ob_end b then Inr (b\<lparr> ob_end := ob_end b - unat slot_count \<rparr>)
           else Inl OutOfBounds))"

definition Reset :: "OperationBuffer \<Rightarrow> OperationBuffer" where
  "Reset b = b\<lparr> ob_end := 0 \<rparr>"

text \<open>
  \<open>ReplaceScope\<close>: the constructor saves \<open>end_\<close> (a pointer: the array and the slot)
  and the slot count of the replaced operation and moves \<open>end_\<close> to that operation; the
  destructor puts \<open>end_\<close> back and rewrites both table entries with the saved count.
  A saved \<open>end_\<close> that points into an array \<open>Grow\<close> has replaced is an error of the
  model.
\<close>

record ReplaceScope =
  rs_replaced :: OpIndex
  rs_old_end :: "nat \<times> nat"
  rs_old_slot_count :: "16 word"

definition ReplaceScope_new ::
    "nat \<Rightarrow> OperationBuffer \<Rightarrow> OpIndex \<Rightarrow> error + ReplaceScope \<times> OperationBuffer" where
  "ReplaceScope_new kSlotsPerId b replaced =
     (case SlotCount kSlotsPerId b replaced of
        Inl e \<Rightarrow> Inl e
      | Inr n \<Rightarrow>
          Inr (\<lparr> rs_replaced = replaced,
                 rs_old_end = (ob_begin b, ob_end b),
                 rs_old_slot_count = n \<rparr>,
               b\<lparr> ob_end := Get replaced \<rparr>))"

definition ReplaceScope_delete ::
    "nat \<Rightarrow> ReplaceScope \<Rightarrow> OperationBuffer \<Rightarrow> error + OperationBuffer" where
  "ReplaceScope_delete kSlotsPerId s b =
     (if fst (rs_old_end s) \<noteq> ob_begin b then Inl DanglingEnd
      else
        (case array_set (ob_operation_sizes b) (OpIndex_id kSlotsPerId (rs_replaced s))
                (rs_old_slot_count s) of
           Inl e \<Rightarrow> Inl e
         | Inr sizes1 \<Rightarrow>
             (case array_set sizes1
                     (u32_sub (OpIndex_id kSlotsPerId
                        (u32 (rs_replaced s +
                              u32 (unat (rs_old_slot_count s)) * sizeof_OperationStorageSlot))) 1)
                     (rs_old_slot_count s) of
                Inl e \<Rightarrow> Inl e
              | Inr sizes2 \<Rightarrow>
                  Inr (b\<lparr> ob_end := snd (rs_old_end s), ob_operation_sizes := sizes2 \<rparr>))))"

text \<open>
  Modelled from the spec: the operation kinds and their \<open>New\<close> are declared in
  \<open>operations.h\<close>, which is not among the source files. By the spec an operation kind
  reports the number of storage units it needs and constructs itself into the run it is
  given; graph.h hands out the run with \<open>Allocate\<close>. An operation is modelled by the
  slot values it writes, and needs as many slots as it writes.
\<close>

type_synonym Operation = "64 word list"

definition write_slots ::
    "64 word option list \<Rightarrow> nat \<Rightarrow> Operation \<Rightarrow> error + 64 word option list" where
  "write_slots st ptr op =
     (if ptr + length op \<le> length st
      then Inr (take ptr st @ map Some op @ drop (ptr + length op) st)
      else Inl OutOfBounds)"

definition Op_New ::
    "nat \<Rightarrow> OperationBuffer \<Rightarrow> Operation \<Rightarrow> (error + nat \<times> OperationBuffer) option" where
  "Op_New kSlotsPerId b op =
     (case Allocate kSlotsPerId b (length op) of
        None \<Rightarrow> None
      | Some (Inl e) \<Rightarrow> Some (Inl e)
      | Some (Inr (ptr, b1)) \<Rightarrow>
          Some (case write_slots (ob_storage b1) ptr op of
                  Inl e \<Rightarrow> Inl e
                | Inr st \<Rightarrow> Inr (ptr, b1\<lparr> ob_storage := st \<rparr>)))"

definition Replace_buffer ::
    "nat \<Rightarrow> OperationBuffer \<Rightarrow> OpIndex \<Rightarrow> Operation \<Rightarrow> (error + OperationBuffer) option" where
  \<comment> \<open>the body of \<open>Graph::Replace\<close>: the scope's constructor, \<open>Op::New\<close>, the destructor\<close>
  "Replace_buffer kSlotsPerId b replaced op =
     (case ReplaceScope_new kSlotsPerId b replaced of
        Inl e \<Rightarrow> Some (Inl e)
      | Inr (scope, b1) \<Rightarrow>
          (case Op_New kSlotsPerId b1 op of
             None \<Rightarrow> None
           | Some (Inl e) \<Rightarrow> Some (Inl e)
           | Some (Inr (ptr, b2)) \<Rightarrow> Some (ReplaceScope_delete kSlotsPerId scope b2)))"

section \<open>Block\<close>

datatype Kind = kMerge | kLoopHeader | kBranchTarget

text \<open>
  A \<open>Block*\<close> is the address of a block in zone memory, or null (\<open>None\<close>). The blocks
  live in a store from addresses to block values, which the functions below read and
  update. The field \<open>graph_\<close> exists in debug builds only and is left out.
\<close>

type_synonym addr = nat

record Block =
  b_kind :: Kind
  b_deferred :: bool
  b_begin :: OpIndex
  b_end :: OpIndex
  b_index :: BlockIndex
  b_last_predecessor :: "addr option"
  b_neighboring_predecessor :: "addr option"

type_synonym store = "addr \<Rightarrow> Block"

definition Block_new :: "Kind \<Rightarrow> Block" where
  \<comment> \<open>the constructor \<open>Block(kind)\<close> with the default member initialisers\<close>
  "Block_new k =
     \<lparr> b_kind = k, b_deferred = False, b_begin = OpIndex_Invalid, b_end = OpIndex_Invalid,
       b_index = BlockIndex_Invalid, b_last_predecessor = None,
       b_neighboring_predecessor = None \<rparr>"

definition IsDeferred :: "Block \<Rightarrow> bool" where
  "IsDeferred blk = b_deferred blk"

definition SetDeferred :: "Block \<Rightarrow> bool \<Rightarrow> Block" where
  "SetDeferred blk d = blk\<lparr> b_deferred := d \<rparr>"

definition IsBound :: "Block \<Rightarrow> bool" where
  "IsBound blk = (b_index blk \<noteq> BlockIndex_Invalid)"

definition HasPredecessors :: "Block \<Rightarrow> bool" where
  "HasPredecessors blk = (b_last_predecessor blk \<noteq> None)"

definition Contains :: "Block \<Rightarrow> OpIndex \<Rightarrow> bool" where
  "Contains blk op_idx = (b_begin blk \<le> op_idx \<and> op_idx < b_end blk)"

definition AddPredecessor :: "store \<Rightarrow> addr \<Rightarrow> addr \<Rightarrow> store" where
  "AddPredecessor h this predecessor =
     (let h1 = h(predecessor := (h predecessor)
                   \<lparr> b_neighboring_predecessor := b_last_predecessor (h this) \<rparr>)
      in h1(this := (h1 this)\<lparr> b_last_predecessor := Some predecessor \<rparr>))"

partial_function (option) Predecessors_loop ::
    "store \<Rightarrow> addr option \<Rightarrow> addr list \<Rightarrow> addr list option" where
  \<comment> \<open>the \<open>for\<close> loop of \<open>Predecessors\<close>: follow the chain, \<open>push_back\<close> each block\<close>
  "Predecessors_loop h pred result =
     (case pred of
        None \<Rightarrow> Some result
      | Some p \<Rightarrow> Predecessors_loop h (b_neighboring_predecessor (h p)) (result @ [p]))"

declare Predecessors_loop.simps [code]

definition Predecessors :: "store \<Rightarrow> addr \<Rightarrow> addr list option" where
  "Predecessors h this =
     (case Predecessors_loop h (b_last_predecessor (h this)) [] of
        None \<Rightarrow> None
      | Some result \<Rightarrow> Some (rev result))"

section \<open>Graph\<close>

text \<open>
  The zone hands out block memory by bumping a pointer: \<open>zone_position\<close> is the first
  address it has not handed out. \<open>NewArray<Block>(n)\<close> returns that address and moves
  it by \<open>n\<close> blocks; the memory it returns is not initialised (the store keeps whatever
  value it had there).
\<close>

record Zone =
  zone_blocks :: store
  zone_position :: addr

definition Zone_NewArray_Block :: "Zone \<Rightarrow> nat \<Rightarrow> addr \<times> Zone" where
  "Zone_NewArray_Block z n = (zone_position z, z\<lparr> zone_position := zone_position z + n \<rparr>)"

datatype Graph = Graph
  (operations: OperationBuffer)
  (bound_blocks: "addr list")
  (all_blocks: "addr list")
  (next_block: nat)
  (graph_zone: nat)
  (companion: "Graph option")

definition Graph_new :: "nat \<Rightarrow> nat \<Rightarrow> nat \<Rightarrow> Graph" where
  \<comment> \<open>the constructor \<open>Graph(graph_zone, initial_capacity)\<close>\<close>
  "Graph_new kSlotsPerId zone initial_capacity =
     Graph (OperationBuffer_new kSlotsPerId initial_capacity) [] [] 0 zone None"

definition Graph_Reset :: "Graph \<Rightarrow> Graph" where
  "Graph_Reset g =
     Graph (Reset (operations g)) [] (all_blocks g) 0 (graph_zone g) (companion g)"

definition Graph_Get :: "Graph \<Rightarrow> BlockIndex \<Rightarrow> error + addr" where
  \<comment> \<open>\<open>Get(BlockIndex)\<close>: the block \<open>bound_blocks_[i.id()]\<close> points to\<close>
  "Graph_Get g i =
     (if i < length (bound_blocks g) then Inr (bound_blocks g ! i) else Inl OutOfBounds)"

definition next_operation_index :: "Graph \<Rightarrow> OpIndex" where
  "next_operation_index g = EndIndex (operations g)"

definition block_count :: "Graph \<Rightarrow> nat" where
  "block_count g = u32 (length (bound_blocks g))"

definition NewBlock :: "Zone \<Rightarrow> Graph \<Rightarrow> Kind \<Rightarrow> error + addr \<times> Zone \<times> Graph" where
  "NewBlock z g k =
     (let (z1, all1) =
            (if next_block g = length (all_blocks g)
             then (let (blocks, z') = Zone_NewArray_Block z 64
                   in (z', all_blocks g @ map (\<lambda>i. blocks + i) [0 ..< 64]))
             else (z, all_blocks g))
      in if next_block g < length all1
         then (let result = all1 ! next_block g
               in Inr (result,
                       z1\<lparr> zone_blocks := (zone_blocks z1)(result := Block_new k) \<rparr>,
                       Graph (operations g) (bound_blocks g) all1 (u64 (next_block g + 1))
                         (graph_zone g) (companion g)))
         else Inl OutOfBounds)"

partial_function (option) Add_deferred_loop :: "store \<Rightarrow> addr option \<Rightarrow> bool option" where
  \<comment> \<open>the \<open>for\<close> loop of \<open>Add(Block*)\<close>; \<open>deferred\<close> is \<open>true\<close> before it\<close>
  "Add_deferred_loop h pred =
     (case pred of
        None \<Rightarrow> Some True
      | Some p \<Rightarrow>
          (if \<not> IsDeferred (h p) then Some False
           else Add_deferred_loop h (b_neighboring_predecessor (h p))))"

declare Add_deferred_loop.simps [code]

definition Add_Block :: "store \<Rightarrow> Graph \<Rightarrow> addr \<Rightarrow> (bool \<times> store \<times> Graph) option" where
  \<comment> \<open>\<open>Graph::Add(Block* block)\<close>\<close>
  "Add_Block h g block =
     (if bound_blocks g \<noteq> [] \<and> \<not> HasPredecessors (h block) then Some (False, h, g)
      else
        (case Add_deferred_loop h (b_last_predecessor (h block)) of
           None \<Rightarrow> None
         | Some deferred \<Rightarrow>
             Some (True,
                   h(block := (SetDeferred (h block) deferred)
                       \<lparr> b_begin := next_operation_index g,
                         b_index := u32 (length (bound_blocks g)) \<rparr>),
                   Graph (operations g) (bound_blocks g @ [block]) (all_blocks g)
                     (next_block g) (graph_zone g) (companion g))))"

definition Finalize :: "store \<Rightarrow> Graph \<Rightarrow> addr \<Rightarrow> store" where
  "Finalize h g block = h(block := (h block)\<lparr> b_end := next_operation_index g \<rparr>)"

definition GetOrCreateCompanion :: "nat \<Rightarrow> Graph \<Rightarrow> Graph \<times> Graph" where
  \<comment> \<open>the companion, and the graph after the call (it owns the companion)\<close>
  "GetOrCreateCompanion kSlotsPerId g =
     (case companion g of
        None \<Rightarrow>
          (let c = Graph_new kSlotsPerId (graph_zone g) (OperationBuffer_size (operations g))
           in (c, Graph (operations g) (bound_blocks g) (all_blocks g) (next_block g)
                    (graph_zone g) (Some c)))
      | Some c \<Rightarrow> (c, g))"

definition SwapWithCompanion :: "nat \<Rightarrow> Graph \<Rightarrow> Graph" where
  \<comment> \<open>five \<open>std::swap\<close>s between the graph and its companion; \<open>companion_\<close> stays\<close>
  "SwapWithCompanion kSlotsPerId g =
     (let (c, g1) = GetOrCreateCompanion kSlotsPerId g
      in Graph (operations c) (bound_blocks c) (all_blocks c) (next_block c) (graph_zone c)
           (Some (Graph (operations g1) (bound_blocks g1) (all_blocks g1) (next_block g1)
                    (graph_zone g1) (companion c))))"

section \<open>Predicates and runs used by the theorems\<close>

text \<open>
  \<open>chain h p xs\<close>: following \<open>neighboring_predecessor_\<close> from the pointer \<open>p\<close> visits
  exactly the blocks \<open>xs\<close> and then reaches null.
\<close>

primrec chain :: "store \<Rightarrow> addr option \<Rightarrow> addr list \<Rightarrow> bool" where
  "chain h p [] = (p = None)"
| "chain h p (a # as) = (p = Some a \<and> chain h (b_neighboring_predecessor (h a)) as)"

text \<open>A sequence of \<open>AddPredecessor\<close> calls on one block, in the order of the list.\<close>

definition add_predecessors :: "store \<Rightarrow> addr \<Rightarrow> addr list \<Rightarrow> store" where
  "add_predecessors h this ps = foldl (\<lambda>h' p. AddPredecessor h' this p) h ps"

text \<open>
  A sequence of \<open>Allocate\<close> calls, one per slot count of the list; the result lists the
  identifiers \<open>Index(result)\<close> of the runs in the order of the calls.
\<close>

fun allocate_all ::
    "nat \<Rightarrow> OperationBuffer \<Rightarrow> nat list \<Rightarrow> (error + OpIndex list \<times> OperationBuffer) option" where
  "allocate_all kSlotsPerId b [] = Some (Inr ([], b))"
| "allocate_all kSlotsPerId b (n # ns) =
     (case Allocate kSlotsPerId b n of
        None \<Rightarrow> None
      | Some (Inl e) \<Rightarrow> Some (Inl e)
      | Some (Inr (ptr, b1)) \<Rightarrow>
          (case allocate_all kSlotsPerId b1 ns of
             None \<Rightarrow> None
           | Some (Inl e) \<Rightarrow> Some (Inl e)
           | Some (Inr (ids, b2)) \<Rightarrow> Some (Inr (Index ptr # ids, b2))))"

text \<open>
  The runs of a buffer. \<open>run_ids s ns\<close> are the identifiers of consecutive runs of the
  lengths \<open>ns\<close>, the first at slot \<open>s\<close>. \<open>runs_ok K sizes s ns\<close>: each of these runs
  has at least \<open>K\<close> (\<open>kSlotsPerId\<close>) and fewer than \<open>2 ^ 16\<close> slots, and the size table
  holds its length at the table index of its first slot and at the index before the one
  of its end. \<open>buffer_ok K b ns\<close>: the buffer \<open>b\<close> holds exactly the runs \<open>ns\<close> from
  slot 0 to \<open>end_\<close>, within its capacity; every byte offset fits \<open>uint32_t\<close>, and the
  size table has an entry for every \<open>K\<close> slots.
\<close>

primrec run_ids :: "nat \<Rightarrow> nat list \<Rightarrow> OpIndex list" where
  "run_ids s [] = []"
| "run_ids s (n # ns) = Index s # run_ids (s + n) ns"

primrec runs_ok :: "nat \<Rightarrow> 16 word option list \<Rightarrow> nat \<Rightarrow> nat list \<Rightarrow> bool" where
  "runs_ok K sizes s [] = True"
| "runs_ok K sizes s (n # ns) =
     (K \<le> n \<and> n < 2 ^ 16 \<and>
      array_get sizes (s div K) = Inr (of_nat n) \<and>
      array_get sizes ((s + n) div K - 1) = Inr (of_nat n) \<and>
      runs_ok K sizes (s + n) ns)"

definition buffer_ok :: "nat \<Rightarrow> OperationBuffer \<Rightarrow> nat list \<Rightarrow> bool" where
  "buffer_ok K b ns =
     (0 < K \<and> ob_end b = sum_list ns \<and> ob_end b \<le> length (ob_storage b) \<and>
      length (ob_storage b) * sizeof_OperationStorageSlot < 2 ^ 32 \<and>
      length (ob_storage b) div K \<le> length (ob_operation_sizes b) \<and>
      runs_ok K (ob_operation_sizes b) 0 ns)"

text \<open>The record an identifier denotes: \<open>n\<close> slots of the storage from \<open>Get(idx)\<close> on.\<close>

definition record_at :: "OperationBuffer \<Rightarrow> OpIndex \<Rightarrow> nat \<Rightarrow> 64 word option list" where
  "record_at b idx n = take n (drop (Get idx) (ob_storage b))"

text \<open>A store in which every block is as the constructor \<open>Block(kMerge)\<close> leaves it.\<close>

definition fresh_store :: store where
  "fresh_store = (\<lambda>a. Block_new kMerge)"

text \<open>
  A store in which block 3 has the predecessors 1 and 2, added in this order, both
  deferred.
\<close>

definition two_deferred_store :: store where
  "two_deferred_store =
     add_predecessors
       (fresh_store(1 := SetDeferred (Block_new kBranchTarget) True,
                    2 := SetDeferred (Block_new kBranchTarget) True))
       3 [1, 2]"

text \<open>
  A store in which block 1, deferred, was added twice as predecessor of block 0: block 1
  is its own neighbouring predecessor.
\<close>

definition deferred_self_loop_store :: store where
  "deferred_self_loop_store =
     add_predecessors (fresh_store(1 := SetDeferred (Block_new kBranchTarget) True)) 0 [1, 1]"

text \<open>
  Two graphs with one operation, one bound block and a pool of two blocks: the first owns
  a companion that holds other operations and blocks, the second has no companion yet.
\<close>

definition swap_example :: Graph where
  "swap_example =
     Graph \<lparr> ob_begin = 0, ob_storage = [Some 10, Some 11, None, None], ob_end = 2,
             ob_operation_sizes = [Some 2, None] \<rparr>
       [0] [0, 1] 1 0
       (Some (Graph \<lparr> ob_begin = 3, ob_storage = [Some 7, Some 8], ob_end = 2,
                      ob_operation_sizes = [Some 2] \<rparr> [5, 6] [5, 6, 7] 3 0 None))"

definition swap_example_alone :: Graph where
  "swap_example_alone =
     Graph \<lparr> ob_begin = 0, ob_storage = [Some 10, Some 11, None, None], ob_end = 2,
             ob_operation_sizes = [Some 2, None] \<rparr>
       [0] [0, 1] 1 0 None"

text \<open>
  \<open>bound_index_ok\<close>: every block of \<open>bound_blocks_\<close> stores its own position in
  that list as its \<open>index_\<close>.
\<close>

definition bound_index_ok :: "store \<Rightarrow> Graph \<Rightarrow> bool" where
  "bound_index_ok h g =
     (map (\<lambda>a. b_index (h a)) (bound_blocks g) = [0 ..< length (bound_blocks g)])"

section \<open>The predecessor chain\<close>

lemma loop_chain: "chain h p xs \<Longrightarrow> Predecessors_loop h p acc = Some (acc @ xs)"
proof (induction xs arbitrary: p acc)
  case Nil
  then show ?case by (simp add: Predecessors_loop.simps)
next
  case (Cons a as)
  then show ?case by (subst Predecessors_loop.simps) simp
qed

lemma loop_chain_conv:
  assumes "Predecessors_loop h p acc = Some r"
  shows "\<exists>xs. chain h p xs \<and> r = acc @ xs"
  using assms
proof (induction h p acc r rule: Predecessors_loop.raw_induct[rotated 1, consumes 1])
  case (1 loop h p acc r)
  show ?case
  proof (cases p)
    case None
    with 1(2) show ?thesis by (intro exI[of _ "[]"]) simp
  next
    case (Some a)
    with 1(2) have "loop h (b_neighboring_predecessor (h a)) (acc @ [a]) = Some r" by simp
    from 1(1)[OF this] obtain xs where "chain h (b_neighboring_predecessor (h a)) xs" "r = (acc @ [a]) @ xs" by blast
    with Some show ?thesis by (intro exI[of _ "a # xs"]) simp
  qed
qed

lemma Predecessors_chain:
  "Predecessors h b = Some ps \<longleftrightarrow> chain h (b_last_predecessor (h b)) (rev ps)"
proof
  assume "Predecessors h b = Some ps"
  then obtain r where r: "Predecessors_loop h (b_last_predecessor (h b)) [] = Some r" "ps = rev r"
    by (auto simp: Predecessors_def split: option.splits)
  from loop_chain_conv[OF r(1)] r(2) show "chain h (b_last_predecessor (h b)) (rev ps)" by auto
next
  assume "chain h (b_last_predecessor (h b)) (rev ps)"
  from loop_chain[OF this, of "[]"] show "Predecessors h b = Some ps"
    by (simp add: Predecessors_def)
qed








section \<open>Binding a block\<close>

lemma deferred_loop_chain:
  "chain h p xs \<Longrightarrow> Add_deferred_loop h p = Some (\<forall>a\<in>set xs. IsDeferred (h a))"
proof (induction xs arbitrary: p)
  case Nil
  then show ?case by (simp add: Add_deferred_loop.simps)
next
  case (Cons a as)
  then show ?case by (subst Add_deferred_loop.simps) auto
qed

text \<open>
  Claim C2, as stated: the deferred flag stored by \<open>Add(Block*)\<close> is true iff the block
  has at least one predecessor and all of them are deferred, so the entry block is not
  deferred. In the code \<open>deferred\<close> starts as \<open>true\<close> and the loop over the chain only
  ever clears it: the first block bound, which has no predecessor, is stored as deferred.
\<close>

theorem Add_Block_entry_deferred_counterexample:
  "Predecessors fresh_store 0 = Some [] \<and>
   Add_Block fresh_store (Graph_new 2 0 16) 0 =
     Some (True,
           fresh_store(0 := (Block_new kMerge)\<lparr> b_deferred := True, b_begin := 0, b_index := 0 \<rparr>),
           Graph (OperationBuffer_new 2 16) [0] [] 0 0 None)"
  by (simp add: Predecessors_def Predecessors_loop.simps Add_Block_def Add_deferred_loop.simps
      fresh_store_def Block_new_def Graph_new_def HasPredecessors_def SetDeferred_def
      next_operation_index_def EndIndex_def Index_def OperationBuffer_new_def u32_def)

text \<open>
  Claim C2, amended: when \<open>Add(Block*)\<close> binds a block whose predecessor accessor
  returns \<open>ps\<close>, the deferred flag it stores is true iff every block of \<open>ps\<close> is
  deferred (for a block with no predecessors that is true).
\<close>

theorem Add_Block_deferred:
  assumes "Predecessors h block = Some ps"
    and "bound_blocks g = [] \<or> HasPredecessors (h block)"
  shows "\<exists>h' g'. Add_Block h g block = Some (True, h', g') \<and>
           b_deferred (h' block) = (\<forall>p\<in>set ps. b_deferred (h p))"
proof -
  from assms(1) have "chain h (b_last_predecessor (h block)) (rev ps)"
    by (simp add: Predecessors_chain)
  from deferred_loop_chain[OF this] assms(2) show ?thesis
    by (auto simp: Add_Block_def SetDeferred_def IsDeferred_def)
qed

theorem Add_Block_deferred_witness:
  "Predecessors two_deferred_store 3 = Some [1, 2] \<and>
   (\<exists>h' g'. Add_Block two_deferred_store (Graph (OperationBuffer_new 2 16) [0] [] 0 0 None) 3
              = Some (True, h', g') \<and> b_deferred (h' 3))"
proof -
  have 1: "Predecessors two_deferred_store 3 = Some [1, 2]"
    by (simp add: two_deferred_store_def add_predecessors_def AddPredecessor_def Let_def
        Predecessors_def Predecessors_loop.simps fresh_store_def Block_new_def SetDeferred_def)
  have 2: "bound_blocks (Graph (OperationBuffer_new 2 16) [0] [] 0 0 None) = [] \<or>
           HasPredecessors (two_deferred_store 3)"
    by (simp add: two_deferred_store_def add_predecessors_def AddPredecessor_def Let_def
        HasPredecessors_def)
  have 3: "b_deferred (two_deferred_store 1)" "b_deferred (two_deferred_store 2)"
    by (simp_all add: two_deferred_store_def add_predecessors_def AddPredecessor_def Let_def
        fresh_store_def Block_new_def SetDeferred_def)
  from Add_Block_deferred[OF 1 2] 3 have
    "\<exists>h' g'. Add_Block two_deferred_store (Graph (OperationBuffer_new 2 16) [0] [] 0 0 None) 3
              = Some (True, h', g') \<and> b_deferred (h' 3)"
    by auto
  with 1 show ?thesis by simp
qed

lemma HasPredecessors_chain:
  "chain h (b_last_predecessor blk) xs \<Longrightarrow> HasPredecessors blk \<longleftrightarrow> xs \<noteq> []"
  by (cases xs) (auto simp: HasPredecessors_def)

lemma deferred_self_loop_diverges:
  assumes "Add_deferred_loop h p = Some r"
  shows "\<not> (\<exists>a. p = Some a \<and> b_neighboring_predecessor (h a) = Some a \<and> IsDeferred (h a))"
  using assms
proof (induction h p r rule: Add_deferred_loop.raw_induct[rotated 1, consumes 1])
  case (1 loop h p r)
  show ?case
  proof
    assume "\<exists>a. p = Some a \<and> b_neighboring_predecessor (h a) = Some a \<and> IsDeferred (h a)"
    then obtain a where a: "p = Some a" "b_neighboring_predecessor (h a) = Some a"
      "IsDeferred (h a)" by blast
    with 1(2) have "loop h (Some a) = Some r" by simp
    from 1(1)[OF this] a show False by blast
  qed
qed

text \<open>
  Claim C5, as stated: \<open>Add(Block*)\<close> returns false when the block is not the first
  and has no predecessors, and returns true otherwise. When the block's predecessor
  chain is a cycle of deferred blocks (a predecessor added twice, which no \<open>DCHECK\<close>
  refuses), the block has predecessors and the loop of \<open>Add\<close> never reaches null:
  \<open>Add\<close> returns neither false nor true.
\<close>

theorem Add_Block_cyclic_counterexample:
  "HasPredecessors (deferred_self_loop_store 0) \<and>
   Add_Block deferred_self_loop_store (Graph (OperationBuffer_new 2 16) [2] [] 0 0 None) 0 = None"
proof -
  let ?h = "deferred_self_loop_store"
  have l: "b_last_predecessor (?h 0) = Some 1"
    by (simp add: deferred_self_loop_store_def add_predecessors_def AddPredecessor_def Let_def)
  have n: "b_neighboring_predecessor (?h 1) = Some 1"
    by (simp add: deferred_self_loop_store_def add_predecessors_def AddPredecessor_def Let_def)
  have d: "IsDeferred (?h 1)"
    by (simp add: deferred_self_loop_store_def add_predecessors_def AddPredecessor_def Let_def
        IsDeferred_def SetDeferred_def)
  have "Add_deferred_loop ?h (Some 1) = None"
  proof (cases "Add_deferred_loop ?h (Some 1)")
    case (Some r)
    from deferred_self_loop_diverges[OF this] n d show ?thesis by blast
  qed simp
  with l show ?thesis by (simp add: Add_Block_def HasPredecessors_def)
qed

text \<open>
  Claim C5, amended: for a block whose predecessor chain ends (the predecessor accessor
  returns \<open>ps\<close>; \<open>HasPredecessors\<close> then says whether \<open>ps\<close> is non-empty), with
  fewer than \<open>2 ^ 32 - 1\<close> blocks bound: \<open>Add(Block*)\<close> returns false exactly when some
  block is bound already and \<open>ps\<close> is empty, and then changes neither the block nor
  the graph; otherwise it returns true, the block's index is the number of blocks bound
  before (so the block is bound), no other block changes, and the block is appended to
  the bound blocks.
\<close>

theorem Add_Block_result:
  assumes "Predecessors h block = Some ps" and "length (bound_blocks g) < 2 ^ 32 - 1"
  shows "HasPredecessors (h block) = (ps \<noteq> []) \<and>
         (if bound_blocks g \<noteq> [] \<and> ps = []
          then Add_Block h g block = Some (False, h, g)
          else \<exists>h' g'. Add_Block h g block = Some (True, h', g') \<and>
                 b_index (h' block) = length (bound_blocks g) \<and>
                 IsBound (h' block) \<and>
                 b_begin (h' block) = next_operation_index g \<and>
                 (\<forall>a. a \<noteq> block \<longrightarrow> h' a = h a) \<and>
                 bound_blocks g' = bound_blocks g @ [block] \<and>
                 block_count g' = block_count g + 1)"
proof -
  from assms(1) have c: "chain h (b_last_predecessor (h block)) (rev ps)"
    by (simp add: Predecessors_chain)
  from HasPredecessors_chain[OF c] have hp: "HasPredecessors (h block) = (ps \<noteq> [])" by simp
  from deferred_loop_chain[OF c] assms(2) hp show ?thesis
    by (auto simp: Add_Block_def u32_def block_count_def IsBound_def BlockIndex_Invalid_def)
qed

theorem Add_Block_result_witness:
  "Add_Block fresh_store (Graph (OperationBuffer_new 2 16) [0] [] 0 0 None) 1 =
     Some (False, fresh_store, Graph (OperationBuffer_new 2 16) [0] [] 0 0 None) \<and>
   (\<exists>h' g'. Add_Block two_deferred_store (Graph (OperationBuffer_new 2 16) [0] [] 0 0 None) 3
              = Some (True, h', g') \<and> b_index (h' 3) = 1 \<and> bound_blocks g' = [0, 3]) \<and>
   (\<exists>h' g'. Add_Block fresh_store (Graph_new 2 0 16) 0
              = Some (True, h', g') \<and> b_index (h' 0) = 0 \<and> bound_blocks g' = [0])"
proof -
  let ?g = "Graph (OperationBuffer_new 2 16) [0] [] 0 0 None"
  have 1: "Predecessors fresh_store 1 = Some []"
    by (simp add: Predecessors_def Predecessors_loop.simps fresh_store_def Block_new_def)
  have 0: "Predecessors fresh_store 0 = Some []"
    by (simp add: Predecessors_def Predecessors_loop.simps fresh_store_def Block_new_def)
  have 3: "Predecessors two_deferred_store 3 = Some [1, 2]"
    by (simp add: two_deferred_store_def add_predecessors_def AddPredecessor_def Let_def
        Predecessors_def Predecessors_loop.simps fresh_store_def Block_new_def SetDeferred_def)
  have 2: "length (bound_blocks ?g) < 2 ^ 32 - 1" by simp
  have 4: "length (bound_blocks (Graph_new 2 0 16)) < 2 ^ 32 - 1" by (simp add: Graph_new_def)
  from Add_Block_result[OF 1 2]
  have a: "Add_Block fresh_store ?g 1 = Some (False, fresh_store, ?g)" by simp
  from Add_Block_result[OF 3 2]
  have b: "\<exists>h' g'. Add_Block two_deferred_store ?g 3
              = Some (True, h', g') \<and> b_index (h' 3) = 1 \<and> bound_blocks g' = [0, 3]"
    by auto
  from Add_Block_result[OF 0 4]
  have c: "\<exists>h' g'. Add_Block fresh_store (Graph_new 2 0 16) 0
              = Some (True, h', g') \<and> b_index (h' 0) = 0 \<and> bound_blocks g' = [0]"
    by (auto simp: Graph_new_def)
  from a b c show ?thesis by blast
qed

lemma bound_index_ok_new: "bound_index_ok h (Graph_new k z c)"
  by (simp add: bound_index_ok_def Graph_new_def)

lemma bound_index_ok_nth:
  "bound_index_ok h g \<Longrightarrow> i < length (bound_blocks g) \<Longrightarrow> b_index (h (bound_blocks g ! i)) = i"
proof -
  assume a: "bound_index_ok h g" "i < length (bound_blocks g)"
  then have "map (\<lambda>a. b_index (h a)) (bound_blocks g) ! i = [0 ..< length (bound_blocks g)] ! i"
    by (simp add: bound_index_ok_def)
  with a(2) show ?thesis by simp
qed

lemma bound_index_ok_mem:
  assumes "bound_index_ok h g" "a \<in> set (bound_blocks g)"
  shows "b_index (h a) < length (bound_blocks g) \<and> bound_blocks g ! b_index (h a) = a"
proof -
  from assms(2) obtain i where i: "i < length (bound_blocks g)" "bound_blocks g ! i = a"
    by (auto simp: in_set_conv_nth)
  from bound_index_ok_nth[OF assms(1) i(1)] i show ?thesis by simp
qed

lemma bound_index_ok_AddPredecessor:
  "bound_index_ok (AddPredecessor h b p) g = bound_index_ok h g"
proof -
  have "b_index (AddPredecessor h b p a) = b_index (h a)" for a
    by (simp add: AddPredecessor_def Let_def)
  then show ?thesis by (simp add: bound_index_ok_def)
qed

lemma bound_index_ok_Finalize:
  "bound_index_ok (Finalize h g' b) g = bound_index_ok h g"
proof -
  have "b_index (Finalize h g' b a) = b_index (h a)" for a
    by (simp add: Finalize_def)
  then show ?thesis by (simp add: bound_index_ok_def)
qed

text \<open>
  Claim C9: if every bound block stores its position in the bound-block list, and a block
  that is not bound (the \<open>DCHECK\<close> of \<open>Add\<close>) is added with success, then every bound
  block again stores its position, and \<open>Get(b.index())\<close> is \<open>b\<close> for the new block and
  for every bound block. A new graph has no bound block, and \<open>AddPredecessor\<close> and
  \<open>Finalize\<close> do not write \<open>index_\<close> (the lemmas above).
\<close>

theorem Add_Block_index_roundtrip:
  assumes "bound_index_ok h g" and "\<not> IsBound (h block)"
    and "length (bound_blocks g) < 2 ^ 32 - 1"
    and "Add_Block h g block = Some (True, h', g')"
  shows "bound_index_ok h' g' \<and> Graph_Get g' (b_index (h' block)) = Inr block \<and>
         (\<forall>a\<in>set (bound_blocks g'). Graph_Get g' (b_index (h' a)) = Inr a)"
proof -
  have notin: "block \<notin> set (bound_blocks g)"
  proof
    assume "block \<in> set (bound_blocks g)"
    from bound_index_ok_mem[OF assms(1) this] assms(2,3) show False
      by (simp add: IsBound_def BlockIndex_Invalid_def)
  qed
  from assms(4) obtain d where
    h': "h' = h(block := (SetDeferred (h block) d)
                  \<lparr> b_begin := next_operation_index g, b_index := u32 (length (bound_blocks g)) \<rparr>)"
    and g': "bound_blocks g' = bound_blocks g @ [block]"
    by (auto simp: Add_Block_def split: if_splits option.splits)
  have u: "u32 (length (bound_blocks g)) = length (bound_blocks g)"
    using assms(3) by (simp add: u32_def)
  have m: "map (\<lambda>a. b_index (h' a)) (bound_blocks g) = map (\<lambda>a. b_index (h a)) (bound_blocks g)"
    using notin by (intro map_cong) (auto simp: h')
  have ok: "bound_index_ok h' g'"
    using assms(1) by (simp add: bound_index_ok_def g' m) (simp add: h' u)
  have idx: "b_index (h' block) = length (bound_blocks g)"
    by (simp add: h' u)
  have get: "Graph_Get g' (b_index (h' block)) = Inr block"
    by (simp add: Graph_Get_def idx g')
  have "Graph_Get g' (b_index (h' a)) = Inr a" if "a \<in> set (bound_blocks g')" for a
    using bound_index_ok_mem[OF ok that] by (simp add: Graph_Get_def)
  with ok get show ?thesis by blast
qed

theorem Add_Block_index_roundtrip_witness:
  "bound_index_ok
     (fresh_store(0 := (Block_new kMerge)\<lparr> b_deferred := True, b_begin := 0, b_index := 0 \<rparr>))
     (Graph (OperationBuffer_new 2 16) [0] [] 0 0 None) \<and>
   Graph_Get (Graph (OperationBuffer_new 2 16) [0] [] 0 0 None) 0 = Inr 0"
proof -
  have 1: "bound_index_ok fresh_store (Graph_new 2 0 16)"
    by (simp add: bound_index_ok_def Graph_new_def)
  have 2: "\<not> IsBound (fresh_store 0)"
    by (simp add: IsBound_def fresh_store_def Block_new_def)
  have 3: "length (bound_blocks (Graph_new 2 0 16)) < 2 ^ 32 - 1"
    by (simp add: Graph_new_def)
  have 4: "Add_Block fresh_store (Graph_new 2 0 16) 0 =
     Some (True,
           fresh_store(0 := (Block_new kMerge)\<lparr> b_deferred := True, b_begin := 0, b_index := 0 \<rparr>),
           Graph (OperationBuffer_new 2 16) [0] [] 0 0 None)"
    by (simp add: Add_Block_def Add_deferred_loop.simps
      fresh_store_def Block_new_def Graph_new_def HasPredecessors_def SetDeferred_def
      next_operation_index_def EndIndex_def Index_def OperationBuffer_new_def u32_def)
  from Add_Block_index_roundtrip[OF 1 2 3 4] show ?thesis by simp
qed

section \<open>The block pool\<close>

text \<open>
  Claim C10: \<open>NewBlock(kind)\<close> returns a block that is exactly \<open>Block(kind)\<close>, whether
  its memory is the first of 64 blocks newly taken from the zone or an entry of the pool
  that an earlier phase used: it has the kind asked for, an invalid index, no
  predecessors, invalid \<open>begin\<close> and \<open>end\<close>, and it is not deferred.
\<close>

theorem NewBlock_initialized:
  assumes "next_block g \<le> length (all_blocks g)"
  shows "\<exists>r z' g'. NewBlock z g k = Inr (r, z', g') \<and>
           r = (if next_block g = length (all_blocks g) then zone_position z
                else all_blocks g ! next_block g) \<and>
           zone_blocks z' r = Block_new k \<and>
           b_kind (zone_blocks z' r) = k \<and>
           \<not> IsBound (zone_blocks z' r) \<and>
           Predecessors (zone_blocks z') r = Some [] \<and>
           \<not> HasPredecessors (zone_blocks z' r) \<and>
           b_begin (zone_blocks z' r) = OpIndex_Invalid \<and>
           b_end (zone_blocks z' r) = OpIndex_Invalid \<and>
           \<not> IsDeferred (zone_blocks z' r)"
proof (cases "next_block g = length (all_blocks g)")
  case True
  then show ?thesis
    by (simp add: NewBlock_def Zone_NewArray_Block_def Let_def nth_append Block_new_def
        IsBound_def Predecessors_def Predecessors_loop.simps HasPredecessors_def IsDeferred_def
        del: upt.simps)
next
  case False
  with assms show ?thesis
    by (simp add: NewBlock_def Let_def Block_new_def
        IsBound_def Predecessors_def Predecessors_loop.simps HasPredecessors_def IsDeferred_def)
qed

theorem NewBlock_initialized_witness:
  "\<exists>r z' g'.
     NewBlock
       \<lparr> zone_blocks = fresh_store(7 :=
            \<lparr> b_kind = kLoopHeader, b_deferred = True, b_begin = 0, b_end = 8, b_index = 0,
              b_last_predecessor = Some 3, b_neighboring_predecessor = Some 4 \<rparr>),
         zone_position = 64 \<rparr>
       (Graph_Reset (Graph (OperationBuffer_new 2 16) [7] [7] 1 0 None)) kBranchTarget
       = Inr (r, z', g') \<and>
     r = 7 \<and> zone_blocks z' r = Block_new kBranchTarget"
  using NewBlock_initialized [of "Graph_Reset (Graph (OperationBuffer_new 2 16) [7] [7] 1 0 None)"
      "\<lparr> zone_blocks = fresh_store(7 :=
            \<lparr> b_kind = kLoopHeader, b_deferred = True, b_begin = 0, b_end = 8, b_index = 0,
              b_last_predecessor = Some 3, b_neighboring_predecessor = Some 4 \<rparr>),
         zone_position = 64 \<rparr>" kBranchTarget]
  by (auto simp: Graph_Reset_def)

section \<open>The companion graph\<close>

text \<open>
  Claim C8, as stated: two swaps in a row restore the graph's internal state exactly.
  A graph that has no companion yet gets one in the first swap and keeps it: after two
  swaps \<open>companion_\<close> is no longer null.
\<close>

theorem SwapWithCompanion_twice_counterexample:
  "SwapWithCompanion 2 (SwapWithCompanion 2 (Graph_new 2 0 16)) \<noteq> Graph_new 2 0 16"
  by (simp add: SwapWithCompanion_def GetOrCreateCompanion_def Let_def Graph_new_def)

text \<open>
  Claim C8, amended: after two swaps in a row the graph's operations, bound blocks,
  block pool, pool cursor and zone are those before the first swap. Its companion is the
  one it had, or, when it had none, the new graph that the first swap created (same zone,
  capacity the size of the operations). So when the graph had its companion before the
  first swap, the whole state is the one before the first swap.
\<close>

theorem SwapWithCompanion_twice:
  "operations (SwapWithCompanion k (SwapWithCompanion k g)) = operations g \<and>
   bound_blocks (SwapWithCompanion k (SwapWithCompanion k g)) = bound_blocks g \<and>
   all_blocks (SwapWithCompanion k (SwapWithCompanion k g)) = all_blocks g \<and>
   next_block (SwapWithCompanion k (SwapWithCompanion k g)) = next_block g \<and>
   graph_zone (SwapWithCompanion k (SwapWithCompanion k g)) = graph_zone g \<and>
   companion (SwapWithCompanion k (SwapWithCompanion k g)) =
     (case companion g of
        None \<Rightarrow> Some (Graph_new k (graph_zone g) (OperationBuffer_size (operations g)))
      | Some c \<Rightarrow> Some c) \<and>
   (companion g \<noteq> None \<longrightarrow> SwapWithCompanion k (SwapWithCompanion k g) = g)"
  by (cases g) (auto simp: SwapWithCompanion_def GetOrCreateCompanion_def Let_def Graph_new_def
      split: option.splits)

theorem SwapWithCompanion_twice_witness:
  "SwapWithCompanion 2 (SwapWithCompanion 2 swap_example) = swap_example \<and>
   SwapWithCompanion 2 swap_example \<noteq> swap_example \<and>
   bound_blocks (SwapWithCompanion 2 (SwapWithCompanion 2 swap_example_alone)) = [0] \<and>
   all_blocks (SwapWithCompanion 2 (SwapWithCompanion 2 swap_example_alone)) = [0, 1] \<and>
   next_block (SwapWithCompanion 2 (SwapWithCompanion 2 swap_example_alone)) = 1 \<and>
   ob_storage (operations (SwapWithCompanion 2 (SwapWithCompanion 2 swap_example_alone)))
     = [Some 10, Some 11, None, None] \<and>
   bound_blocks (SwapWithCompanion 2 swap_example_alone) = []"
proof -
  have c: "companion swap_example \<noteq> None" by (simp add: swap_example_def)
  from SwapWithCompanion_twice[of 2 swap_example] c
  have a: "SwapWithCompanion 2 (SwapWithCompanion 2 swap_example) = swap_example" by blast
  have b: "SwapWithCompanion 2 swap_example \<noteq> swap_example"
    by (simp add: swap_example_def SwapWithCompanion_def GetOrCreateCompanion_def)
  have d: "bound_blocks (SwapWithCompanion 2 swap_example_alone) = []"
    by (simp add: swap_example_alone_def SwapWithCompanion_def GetOrCreateCompanion_def
        Graph_new_def Let_def)
  note T = SwapWithCompanion_twice[of 2 swap_example_alone]
  from T have e: "bound_blocks (SwapWithCompanion 2 (SwapWithCompanion 2 swap_example_alone))
                   = bound_blocks swap_example_alone"
    "all_blocks (SwapWithCompanion 2 (SwapWithCompanion 2 swap_example_alone))
       = all_blocks swap_example_alone"
    "next_block (SwapWithCompanion 2 (SwapWithCompanion 2 swap_example_alone))
       = next_block swap_example_alone"
    "operations (SwapWithCompanion 2 (SwapWithCompanion 2 swap_example_alone))
       = operations swap_example_alone"
    by blast+
  have f: "bound_blocks swap_example_alone = [0]" "all_blocks swap_example_alone = [0, 1]"
    "next_block swap_example_alone = 1"
    "ob_storage (operations swap_example_alone) = [Some 10, Some 11, None, None]"
    by (simp_all add: swap_example_alone_def)
  from a b d show ?thesis by (simp only: e f simp_thms)
qed

section \<open>The arena: fixed-width arithmetic within range\<close>

lemma u32_id: "x < 2 ^ 32 \<Longrightarrow> u32 x = x"
  by (simp add: u32_def)

lemma u64_id: "x < 2 ^ 64 \<Longrightarrow> u64 x = x"
  by (simp add: u64_def)

lemma wrap_sub: "b \<le> a \<Longrightarrow> a < (m::nat) \<Longrightarrow> (a mod m + m - b mod m) mod m = a - b"
proof -
  assume a: "b \<le> a" "a < m"
  have 1: "a mod m = a" "b mod m = b" using a by simp_all
  have 2: "a + m - b = (a - b) + m" using a by arith
  have lt: "a - b < m" using a by arith
  have "(a - b + m) mod m = a - b" using lt by (simp only: mod_add_self2 mod_less)
  then show ?thesis by (simp only: 1 2)
qed

lemma u32_sub_1: "0 < a \<Longrightarrow> a < 2 ^ 32 \<Longrightarrow> u32_sub a 1 = a - 1"
  unfolding u32_sub_def u32_def by (rule wrap_sub) simp_all

lemma u64_sub_le: "b \<le> a \<Longrightarrow> a < 2 ^ 64 \<Longrightarrow> u64_sub a b = a - b"
  unfolding u64_sub_def u64_def by (rule wrap_sub) simp_all

lemma Index_id: "p * 8 < 2 ^ 32 \<Longrightarrow> Index p = p * 8"
  by (simp add: Index_def sizeof_OperationStorageSlot_def u32_def)

lemma OpIndex_id_slot: "OpIndex_id K (p * 8) = p div K"
  by (simp add: OpIndex_id_def sizeof_OperationStorageSlot_def)

lemma div_step: "0 < K \<Longrightarrow> K \<le> n \<Longrightarrow> s div K < (s + n) div (K::nat)"
proof -
  assume a: "0 < K" "K \<le> n"
  have "s div K + 1 = (s + K) div K" using a(1) by (simp add: div_add_self2)
  also have "\<dots> \<le> (s + n) div K" using a(2) by (intro div_le_mono) simp
  finally show ?thesis by simp
qed

lemma unat_of_nat_16: "n < 2 ^ 16 \<Longrightarrow> unat (of_nat n :: 16 word) = n"
  by (simp add: unat_of_nat)

lemma runs_ok_append:
  "runs_ok K sizes s (ns @ ms) = (runs_ok K sizes s ns \<and> runs_ok K sizes (s + sum_list ns) ms)"
  by (induction ns arbitrary: s) (auto simp: add.assoc)

lemma runs_ok_below:
  "runs_ok K sizes s ns \<Longrightarrow> 0 < K \<Longrightarrow> s + sum_list ns \<le> S \<Longrightarrow>
   (\<And>i. i < S div K \<Longrightarrow> array_get sizes' i = array_get sizes i) \<Longrightarrow>
   runs_ok K sizes' s ns"
proof (induction ns arbitrary: s)
  case Nil
  then show ?case by simp
next
  case (Cons n ns)
  from Cons.prems have n: "K \<le> n" and le: "s + n \<le> S" by auto
  have 1: "s div K < (s + n) div K" using div_step[OF Cons.prems(2) n] .
  have 2: "(s + n) div K \<le> S div K" using le by (intro div_le_mono)
  from 1 2 have "s div K < S div K" "(s + n) div K - 1 < S div K" by auto
  with Cons show ?case by (simp add: add.assoc)
qed

lemma runs_ok_above:
  "runs_ok K sizes s ns \<Longrightarrow> 0 < K \<Longrightarrow>
   (\<And>i. s div K \<le> i \<Longrightarrow> array_get sizes' i = array_get sizes i) \<Longrightarrow>
   runs_ok K sizes' s ns"
proof (induction ns arbitrary: s)
  case Nil
  then show ?case by simp
next
  case (Cons n ns)
  from Cons.prems have n: "K \<le> n" by auto
  have 1: "s div K < (s + n) div K" using div_step[OF Cons.prems(2) n] .
  have 3: "runs_ok K sizes' (s + n) ns"
  proof (rule Cons.IH)
    show "runs_ok K sizes (s + n) ns" using Cons.prems(1) by simp
    show "0 < K" by fact
    fix i assume "(s + n) div K \<le> i"
    with 1 have "s div K \<le> i" by simp
    then show "array_get sizes' i = array_get sizes i" by (rule Cons.prems(3))
  qed
  from 1 have "s div K \<le> s div K" "s div K \<le> (s + n) div K - 1" by auto
  with Cons.prems 3 show ?case by simp
qed

lemma array_set_Inr: "i < length xs \<Longrightarrow> array_set xs i v = Inr (xs[i := Some v])"
  by (simp add: array_set_def)

section \<open>The arena: one allocation\<close>

lemma Grow_loop_terminates:
  "0 < c \<Longrightarrow> m \<le> 2 ^ 63 \<Longrightarrow> \<exists>r. Grow_loop c m = Some r \<and> m \<le> r \<and> c \<le> r"
proof (induction "m - c" arbitrary: c rule: less_induct)
  case less
  show ?case
  proof (cases "c < m")
    case False
    then show ?thesis by (subst Grow_loop.simps) simp
  next
    case True
    with less.prems have "c * 2 < 2 ^ 64" by simp
    then have u: "u64 (c * 2) = c * 2" by (rule u64_id)
    have "m - c * 2 < m - c" using True less.prems(1) by simp
    from less.hyps[OF this _ less.prems(2)] less.prems(1)
    obtain r where "Grow_loop (c * 2) m = Some r" "m \<le> r" "c * 2 \<le> r" by auto
    with True u show ?thesis by (subst Grow_loop.simps) simp
  qed
qed

text \<open>
  With capacity 0 the loop of \<open>Grow\<close> doubles 0 for ever: \<open>Allocate\<close> does not
  return. (\<open>GetOrCreateCompanion\<close> gives the companion of an empty graph capacity 0.)
  The theorems below are about buffers of positive capacity.
\<close>

lemma Grow_loop_zero:
  assumes "Grow_loop c m = Some r"
  shows "\<not> (c = 0 \<and> 0 < m)"
  using assms
proof (induction c m r rule: Grow_loop.raw_induct[rotated 1, consumes 1])
  case (1 loop c m r)
  show ?case
  proof
    assume a: "c = 0 \<and> 0 < m"
    with 1(2) have "loop 0 m = Some r" by (simp add: u64_def)
    from 1(1)[OF this] a show False by simp
  qed
qed

lemma Allocate_capacity_zero_diverges:
  assumes "0 < n" "n < 2 ^ 64"
  shows "Allocate K (OperationBuffer_new K 0) n = None"
proof -
  have "Grow_loop 0 n = None"
  proof (cases "Grow_loop 0 n")
    case (Some r)
    from Grow_loop_zero[OF this] assms(1) show ?thesis by simp
  qed simp
  then show ?thesis
    using assms
    by (simp add: Allocate_def Grow_def OperationBuffer_new_def NewArray_def
        OperationBuffer_capacity_def u64_sub_def u64_def u32_def)
qed

lemma buffer_okD:
  assumes "buffer_ok K b ns"
  shows "0 < K" "ob_end b = sum_list ns" "ob_end b \<le> length (ob_storage b)"
    "length (ob_storage b) * 8 < 2 ^ 32"
    "length (ob_storage b) div K \<le> length (ob_operation_sizes b)"
    "runs_ok K (ob_operation_sizes b) 0 ns"
  using assms by (simp_all add: buffer_ok_def sizeof_OperationStorageSlot_def)

lemma Allocate_store_ok:
  assumes ok: "buffer_ok K b ns" and n: "K \<le> n" "n < 2 ^ 16"
    and fit: "ob_end b + n \<le> length (ob_storage b)"
  shows "\<exists>b'. Allocate_store K b n = Inr (ob_end b, b') \<and> buffer_ok K b' (ns @ [n]) \<and>
           ob_storage b' = ob_storage b \<and> ob_begin b' = ob_begin b \<and> ob_end b' = ob_end b + n \<and>
           length (ob_operation_sizes b') = length (ob_operation_sizes b) \<and>
           (\<forall>i. i < ob_end b div K \<or> (ob_end b + n) div K \<le> i \<longrightarrow>
              array_get (ob_operation_sizes b') i = array_get (ob_operation_sizes b) i)"
proof -
  let ?S = "ob_end b" and ?L = "length (ob_storage b)" and ?sz = "ob_operation_sizes b"
  note d = buffer_okD[OF ok]
  have S8: "?S * 8 < 2 ^ 32" and E8: "(?S + n) * 8 < 2 ^ 32"
    using d(4) fit by simp_all
  have idx: "Index ?S = ?S * 8" using S8 by (rule Index_id)
  have un: "u32 n = n" using n(2) by (intro u32_id) simp
  have e: "u32 (?S * 8 + n * 8) = (?S + n) * 8"
    using E8 by (intro trans[OF u32_id]) (simp_all add: algebra_simps)
  let ?a = "?S div K" and ?e = "(?S + n) div K"
  have ae: "?a < ?e" using div_step[OF d(1) n(1)] .
  have eL: "?e \<le> ?L div K" using fit by (intro div_le_mono)
  have e32: "?e < 2 ^ 32"
  proof -
    have "?e \<le> ?S + n" by (rule div_le_dividend)
    also have "\<dots> < 2 ^ 32" using E8 by simp
    finally show ?thesis .
  qed
  have c: "u32_sub ?e 1 = ?e - 1" using ae e32 by (intro u32_sub_1) simp_all
  have la: "?a < length ?sz" and lc: "?e - 1 < length ?sz"
    using ae eL d(5) by simp_all
  let ?s2 = "?sz[?a := Some (of_nat n), ?e - 1 := Some (of_nat n)]"
  let ?b' = "b\<lparr> ob_end := ?S + n, ob_operation_sizes := ?s2 \<rparr>"
  have i1: "OpIndex_id K (Index ?S) = ?a"
    by (simp only: idx OpIndex_id_slot)
  have "u32 (Index ?S + u32 n * sizeof_OperationStorageSlot) = (?S + n) * 8"
    by (simp only: idx un e sizeof_OperationStorageSlot_def)
  then have i2: "u32_sub (OpIndex_id K (u32 (Index ?S + u32 n * sizeof_OperationStorageSlot))) 1
                 = ?e - 1"
    by (simp only: OpIndex_id_slot c)
  have res: "Allocate_store K b n = Inr (?S, ?b')"
    unfolding Allocate_store_def Let_def i1 i2
    using la lc by (simp add: array_set_Inr)
  have get: "array_get ?s2 i = (if i = ?e - 1 \<or> i = ?a then Inr (of_nat n) else array_get ?sz i)" for i
    using la lc by (auto simp: array_get_def nth_list_update)
  have old: "runs_ok K ?s2 0 ns"
  proof (rule runs_ok_below[OF d(6) d(1)])
    show "0 + sum_list ns \<le> ?S" using d(2) by simp
    fix i assume "i < ?S div K"
    with ae have "i \<noteq> ?e - 1" "i \<noteq> ?a" by arith+
    with get[of i] show "array_get ?s2 i = array_get ?sz i" by (simp only: if_False simp_thms)
  qed
  have new: "runs_ok K ?s2 ?S [n]"
    using n get[of ?a] get[of "?e - 1"] by simp
  have "runs_ok K ?s2 0 (ns @ [n])"
    using old new d(2) by (simp add: runs_ok_append)
  then have "buffer_ok K ?b' (ns @ [n])"
    using d fit by (simp add: buffer_ok_def sizeof_OperationStorageSlot_def)
  moreover have "array_get ?s2 i = array_get ?sz i" if "i < ?a \<or> ?e \<le> i" for i
  proof -
    from that ae have "i \<noteq> ?e - 1" "i \<noteq> ?a" by arith+
    with get[of i] show ?thesis by (simp only: if_False simp_thms)
  qed
  ultimately show ?thesis using res by auto
qed

lemma Grow_ok:
  assumes ok: "buffer_ok K b ns" and pos: "0 < length (ob_storage b)" and m: "m \<le> 2 ^ 63"
  shows "\<exists>r. Grow K b m = Some r \<and>
           (r = Inl CheckFailed \<or>
            (\<exists>b1. r = Inr b1 \<and> buffer_ok K b1 ns \<and> m \<le> length (ob_storage b1) \<and>
               take (ob_end b) (ob_storage b1) = take (ob_end b) (ob_storage b) \<and>
               ob_end b1 = ob_end b \<and> ob_begin b1 = ob_begin b + 1))"
proof -
  let ?S = "ob_end b" and ?L = "length (ob_storage b)" and ?sz = "ob_operation_sizes b"
  note d = buffer_okD[OF ok]
  have cap: "OperationBuffer_capacity b = ?L"
    using d(4) by (simp add: OperationBuffer_capacity_def u32_def)
  have size: "OperationBuffer_size b = ?S"
    using d(3,4) by (simp add: OperationBuffer_size_def u32_def)
  have u: "u64 (2 * ?L) = 2 * ?L" using d(4) by (intro u64_id) simp
  from Grow_loop_terminates[of "2 * ?L" m] pos m
  obtain r where r: "Grow_loop (2 * ?L) m = Some r" "m \<le> r" "2 * ?L \<le> r" by auto
  show ?thesis
  proof (cases "r < 536870911")
    case False
    then show ?thesis
      by (simp add: Grow_def cap u r sizeof_OperationStorageSlot_def)
  next
    case True
    let ?st = "take ?S (ob_storage b) @ drop ?S (NewArray r)"
    let ?s1 = "take (?S div K) ?sz @ drop (?S div K) (NewArray (r div K))"
    let ?b1 = "\<lparr> ob_begin = ob_begin b + 1, ob_storage = ?st, ob_end = ?S,
                 ob_operation_sizes = ?s1 \<rparr>"
    have Sr: "?S \<le> r" using d(3) r(3) by simp
    have SK: "?S div K \<le> r div K" using Sr by (intro div_le_mono)
    have SL: "?S div K \<le> length ?sz"
    proof -
      have "?S div K \<le> ?L div K" using d(3) by (intro div_le_mono)
      with d(5) show ?thesis by simp
    qed
    have m1: "memcpy (NewArray r) (ob_storage b) ?S = Inr ?st"
      using Sr d(3) by (simp add: memcpy_def NewArray_def)
    have m2: "memcpy (NewArray (r div K)) ?sz (?S div K) = Inr ?s1"
      using SK SL by (simp add: memcpy_def NewArray_def)
    have res: "Grow K b m = Some (Inr ?b1)"
      using True by (simp add: Grow_def cap u r size m1 m2 sizeof_OperationStorageSlot_def)
    have len: "length ?st = r" using Sr d(3) by (simp add: NewArray_def)
    have len1: "length ?s1 = r div K" using SK SL by (simp add: NewArray_def)
    have runs: "runs_ok K ?s1 0 ns"
    proof (rule runs_ok_below[OF d(6) d(1)])
      show "0 + sum_list ns \<le> ?S" using d(2) by simp
      fix i assume i: "i < ?S div K"
      then have "i < length ?s1" "i < length ?sz" "?s1 ! i = ?sz ! i"
        using SK SL len1 by (simp_all add: nth_append)
      then show "array_get ?s1 i = array_get ?sz i" by (simp add: array_get_def)
    qed
    have "buffer_ok K ?b1 ns"
      using d(1,2) Sr True runs len len1
      by (simp add: buffer_ok_def sizeof_OperationStorageSlot_def)
    moreover have "m \<le> length (ob_storage ?b1)" using r(2) len by simp
    moreover have "take ?S (ob_storage ?b1) = take ?S (ob_storage b)"
      using d(3) by simp
    ultimately show ?thesis using res by simp
  qed
qed

lemma Allocate_ok:
  assumes ok: "buffer_ok K b ns" and pos: "0 < length (ob_storage b)"
    and n: "K \<le> n" "n < 2 ^ 16"
  shows "\<exists>r. Allocate K b n = Some r \<and>
           (r = Inl CheckFailed \<and> length (ob_storage b) < ob_end b + n \<or>
            (\<exists>b'. r = Inr (ob_end b, b') \<and> buffer_ok K b' (ns @ [n]) \<and>
               take (ob_end b) (ob_storage b') = take (ob_end b) (ob_storage b) \<and>
               ob_end b' = ob_end b + n \<and>
               length (ob_storage b) \<le> length (ob_storage b') \<and>
               ob_begin b' = (if length (ob_storage b) < ob_end b + n then ob_begin b + 1
                              else ob_begin b)))"
proof -
  let ?S = "ob_end b" and ?L = "length (ob_storage b)"
  note d = buffer_okD[OF ok]
  have sub: "u64_sub ?L ?S = ?L - ?S" using d(3,4) by (intro u64_sub_le) simp_all
  show ?thesis
  proof (cases "?L - ?S < n")
    case False
    then have fit: "?S + n \<le> ?L" using d(3) by simp
    from Allocate_store_ok[OF ok n fit] False fit show ?thesis
      by (auto simp: Allocate_def sub)
  next
    case True
    have cap: "OperationBuffer_capacity b = ?L"
      using d(4) by (simp add: OperationBuffer_capacity_def u32_def)
    have u: "u64 (?L + n) = ?L + n" using d(4) n(2) by (intro u64_id) simp
    have "?L + n \<le> 2 ^ 63" using d(4) n(2) by simp
    from Grow_ok[OF ok pos this] obtain r where r: "Grow K b (?L + n) = Some r"
      "r = Inl CheckFailed \<or>
            (\<exists>b1. r = Inr b1 \<and> buffer_ok K b1 ns \<and> ?L + n \<le> length (ob_storage b1) \<and>
               take (ob_end b) (ob_storage b1) = take (ob_end b) (ob_storage b) \<and>
               ob_end b1 = ob_end b \<and> ob_begin b1 = ob_begin b + 1)" by blast
    from r(2) show ?thesis
    proof
      assume "r = Inl CheckFailed"
      with r(1) True d(3) show ?thesis by (simp add: Allocate_def sub cap u)
    next
      assume "\<exists>b1. r = Inr b1 \<and> buffer_ok K b1 ns \<and> ?L + n \<le> length (ob_storage b1) \<and>
               take (ob_end b) (ob_storage b1) = take (ob_end b) (ob_storage b) \<and>
               ob_end b1 = ob_end b \<and> ob_begin b1 = ob_begin b + 1"
      then obtain b1 where b1: "r = Inr b1" "buffer_ok K b1 ns" "?L + n \<le> length (ob_storage b1)"
        "take ?S (ob_storage b1) = take ?S (ob_storage b)" "ob_end b1 = ?S"
        "ob_begin b1 = ob_begin b + 1" by blast
      have fit: "ob_end b1 + n \<le> length (ob_storage b1)" using b1(3,5) d(3) by simp
      from Allocate_store_ok[OF b1(2) n fit] obtain b' where b':
        "Allocate_store K b1 n = Inr (ob_end b1, b')" "buffer_ok K b' (ns @ [n])"
        "ob_storage b' = ob_storage b1" "ob_begin b' = ob_begin b1" "ob_end b' = ob_end b1 + n"
        by blast
      have "Allocate K b n = Some (Inr (?S, b'))"
        using True r(1) b1(1,5) b'(1) by (simp add: Allocate_def sub cap u)
      with b' b1 True d(3) show ?thesis by simp
    qed
  qed
qed

text \<open>
  \<open>buffer_ok\<close> holds for a new buffer (\<open>buffer_ok_new\<close> below) and after \<open>Reset\<close>, and
  \<open>Allocate\<close>, \<open>Op::New\<close> and, further below, \<open>Replace\<close> keep it.
\<close>

lemma buffer_ok_Reset: "buffer_ok K b ns \<Longrightarrow> buffer_ok K (Reset b) []"
  by (simp add: buffer_ok_def Reset_def)

lemma Op_New_ok:
  assumes ok: "buffer_ok K b ns" and pos: "0 < length (ob_storage b)"
    and n: "K \<le> length op" "length op < 2 ^ 16"
  shows "\<exists>r. Op_New K b op = Some r \<and>
           (r = Inl CheckFailed \<or>
            (\<exists>b'. r = Inr (ob_end b, b') \<and> buffer_ok K b' (ns @ [length op]) \<and>
               record_at b' (Index (ob_end b)) (length op) = map Some op))"
proof -
  from Allocate_ok[OF ok pos n] obtain r where r: "Allocate K b (length op) = Some r"
    "r = Inl CheckFailed \<and> length (ob_storage b) < ob_end b + length op \<or>
     (\<exists>b'. r = Inr (ob_end b, b') \<and> buffer_ok K b' (ns @ [length op]) \<and>
        take (ob_end b) (ob_storage b') = take (ob_end b) (ob_storage b) \<and>
        ob_end b' = ob_end b + length op \<and>
        length (ob_storage b) \<le> length (ob_storage b') \<and>
        ob_begin b' = (if length (ob_storage b) < ob_end b + length op then ob_begin b + 1
                       else ob_begin b))" by blast
  from r(2) show ?thesis
  proof
    assume "r = Inl CheckFailed \<and> length (ob_storage b) < ob_end b + length op"
    with r(1) show ?thesis by (simp add: Op_New_def)
  next
    assume "\<exists>b'. r = Inr (ob_end b, b') \<and> buffer_ok K b' (ns @ [length op]) \<and>
        take (ob_end b) (ob_storage b') = take (ob_end b) (ob_storage b) \<and>
        ob_end b' = ob_end b + length op \<and>
        length (ob_storage b) \<le> length (ob_storage b') \<and>
        ob_begin b' = (if length (ob_storage b) < ob_end b + length op then ob_begin b + 1
                       else ob_begin b)"
    then obtain b1 where b1: "r = Inr (ob_end b, b1)" "buffer_ok K b1 (ns @ [length op])"
      "ob_end b1 = ob_end b + length op" by blast
    note d = buffer_okD[OF b1(2)]
    let ?S = "ob_end b"
    let ?st = "take ?S (ob_storage b1) @ map Some op @ drop (?S + length op) (ob_storage b1)"
    let ?b' = "b1\<lparr> ob_storage := ?st \<rparr>"
    have fit: "?S + length op \<le> length (ob_storage b1)" using d(3) b1(3) by simp
    have res: "Op_New K b op = Some (Inr (?S, ?b'))"
      using fit by (simp add: Op_New_def r(1) b1(1) write_slots_def)
    have len: "length ?st = length (ob_storage b1)" using fit by simp
    have ok': "buffer_ok K ?b' (ns @ [length op])"
      using b1(2) len unfolding buffer_ok_def by simp
    have S8: "?S * 8 < 2 ^ 32" using fit d(4) by simp
    have g: "Get (Index ?S) = ?S"
      using S8 by (simp add: Index_id Get_def sizeof_OperationStorageSlot_def)
    have "drop ?S ?st = map Some op @ drop (?S + length op) (ob_storage b1)"
      using fit by simp
    then have "record_at ?b' (Index ?S) (length op) = map Some op"
      by (simp add: record_at_def g)
    with res ok' show ?thesis by blast
  qed
qed

section \<open>The arena: stepping and sequences of allocations\<close>

lemma run_ids_length: "length (run_ids s ns) = length ns"
  by (induction ns arbitrary: s) auto

lemma run_ids_nth: "k < length ns \<Longrightarrow> run_ids s ns ! k = Index (s + sum_list (take k ns))"
proof (induction ns arbitrary: s k)
  case Nil
  then show ?case by simp
next
  case (Cons n ns)
  then show ?case by (cases k) (auto simp: add.assoc)
qed

lemma runs_ok_nth:
  assumes "runs_ok K sizes s ns" "k < length ns"
  shows "runs_ok K sizes (s + sum_list (take k ns)) [ns ! k]"
proof -
  have "ns = take k ns @ [ns ! k] @ drop (Suc k) ns"
    using assms(2) by (simp add: id_take_nth_drop)
  then have "runs_ok K sizes s (take k ns @ [ns ! k] @ drop (Suc k) ns)"
    using assms(1) by simp
  then show ?thesis
    unfolding runs_ok_append by simp
qed

lemma sum_take_Suc_le: "k < length ns \<Longrightarrow> sum_list (take k ns) + ns ! k \<le> sum_list (ns::nat list)"
proof -
  assume k: "k < length ns"
  have "sum_list (take (Suc k) ns) \<le> sum_list (take (Suc k) ns) + sum_list (drop (Suc k) ns)"
    by simp
  also have "\<dots> = sum_list ns" by (simp flip: sum_list_append)
  finally show ?thesis using k by (simp add: take_Suc_conv_app_nth)
qed

lemma run_step:
  assumes r: "runs_ok K (ob_operation_sizes b) s [n]" and K: "0 < K"
    and fit: "(s + n) * 8 < 2 ^ 32"
  shows "Next K b (Index s) = Inr (Index (s + n))"
    and "Previous K b (Index (s + n)) = Inr (Index s)"
    and "Index s < Index (s + n)"
    and "SlotCount K b (Index s) = Inr (of_nat n)"
    and "array_get (ob_operation_sizes b)
           (OpIndex_id K (Index s + n * sizeof_OperationStorageSlot) - 1) = Inr (of_nat n)"
    and "Get (Index s) = s"
proof -
  from r have n: "K \<le> n" "n < 2 ^ 16"
    and a: "array_get (ob_operation_sizes b) (s div K) = Inr (of_nat n)"
    and c: "array_get (ob_operation_sizes b) ((s + n) div K - 1) = Inr (of_nat n)"
    by simp_all
  have s8: "s * 8 < 2 ^ 32" using fit by simp
  have i_s: "Index s = s * 8" using s8 by (rule Index_id)
  have i_e: "Index (s + n) = (s + n) * 8" using fit by (rule Index_id)
  have un: "unat (of_nat n :: 16 word) = n" using n(2) by (rule unat_of_nat_16)
  have nx: "u32 (s * 8 + n * 8) = (s + n) * 8"
    using fit by (intro trans[OF u32_id]) (simp_all add: algebra_simps)
  show "Next K b (Index s) = Inr (Index (s + n))"
    by (simp add: Next_def i_s i_e OpIndex_id_slot a un nx sizeof_OperationStorageSlot_def)
  have lt: "s div K < (s + n) div K" using div_step[OF K n(1)] .
  have e32: "(s + n) div K < 2 ^ 32"
  proof -
    have "(s + n) div K \<le> s + n" by (rule div_le_dividend)
    also have "\<dots> < 2 ^ 32" using fit by simp
    finally show ?thesis .
  qed
  have pi: "u32_sub ((s + n) div K) 1 = (s + n) div K - 1"
    using lt e32 by (intro u32_sub_1) simp_all
  have "u64_sub ((s + n) * 8) (n * 8) = (s + n) * 8 - n * 8"
    using fit by (intro u64_sub_le) simp_all
  then have pv: "u32 (u64_sub ((s + n) * 8) (n * 8)) = s * 8"
    using s8 by (simp add: u32_id)
  have "Previous K b ((s + n) * 8) = Inr (s * 8)"
    unfolding Previous_def OpIndex_id_slot pi c sizeof_OperationStorageSlot_def
    using pv un by simp
  then show "Previous K b (Index (s + n)) = Inr (Index s)"
    by (simp only: i_s i_e)
  show "Index s < Index (s + n)" using n K by (simp add: i_s i_e)
  show "SlotCount K b (Index s) = Inr (of_nat n)"
    by (simp add: SlotCount_def i_s OpIndex_id_slot a)
  have "Index s + n * sizeof_OperationStorageSlot = (s + n) * 8"
    by (simp add: i_s sizeof_OperationStorageSlot_def algebra_simps)
  then show "array_get (ob_operation_sizes b)
           (OpIndex_id K (Index s + n * sizeof_OperationStorageSlot) - 1) = Inr (of_nat n)"
    by (simp only: OpIndex_id_slot c)
  show "Get (Index s) = s" by (simp add: i_s Get_def sizeof_OperationStorageSlot_def)
qed

lemma buffer_ok_new:
  "0 < K \<Longrightarrow> c * 8 < 2 ^ 32 \<Longrightarrow> buffer_ok K (OperationBuffer_new K c) []"
proof -
  assume a: "0 < K" "c * 8 < 2 ^ 32"
  have "u64 (c + 1) = c + 1" using a(2) by (intro u64_id) simp
  moreover have "c div K \<le> (c + 1) div K" by (intro div_le_mono) simp
  ultimately show ?thesis using a
    by (simp add: buffer_ok_def OperationBuffer_new_def NewArray_def sizeof_OperationStorageSlot_def)
qed

lemma allocate_all_ok:
  "buffer_ok K b ns \<Longrightarrow> 0 < length (ob_storage b) \<Longrightarrow> \<forall>n\<in>set ms. K \<le> n \<and> n < 2 ^ 16 \<Longrightarrow>
   \<exists>r. allocate_all K b ms = Some r \<and>
     (case r of
        Inl e \<Rightarrow> e = CheckFailed \<and> length (ob_storage b) < sum_list ns + sum_list ms
      | Inr (ids, b') \<Rightarrow> ids = run_ids (sum_list ns) ms \<and> buffer_ok K b' (ns @ ms))"
proof (induction ms arbitrary: b ns)
  case Nil
  then show ?case by simp
next
  case (Cons n ms)
  from Cons.prems(3) have n: "K \<le> n" "n < 2 ^ 16" by simp_all
  note d = buffer_okD[OF Cons.prems(1)]
  from Allocate_ok[OF Cons.prems(1,2) n] obtain r1 where r1: "Allocate K b n = Some r1"
    "r1 = Inl CheckFailed \<and> length (ob_storage b) < ob_end b + n \<or>
            (\<exists>b'. r1 = Inr (ob_end b, b') \<and> buffer_ok K b' (ns @ [n]) \<and>
               take (ob_end b) (ob_storage b') = take (ob_end b) (ob_storage b) \<and>
               ob_end b' = ob_end b + n \<and>
               length (ob_storage b) \<le> length (ob_storage b') \<and>
               ob_begin b' = (if length (ob_storage b) < ob_end b + n then ob_begin b + 1
                              else ob_begin b))" by blast
  from r1(2) show ?case
  proof
    assume "r1 = Inl CheckFailed \<and> length (ob_storage b) < ob_end b + n"
    with r1(1) d(2) show ?thesis by simp
  next
    assume "\<exists>b'. r1 = Inr (ob_end b, b') \<and> buffer_ok K b' (ns @ [n]) \<and>
               take (ob_end b) (ob_storage b') = take (ob_end b) (ob_storage b) \<and>
               ob_end b' = ob_end b + n \<and>
               length (ob_storage b) \<le> length (ob_storage b') \<and>
               ob_begin b' = (if length (ob_storage b) < ob_end b + n then ob_begin b + 1
                              else ob_begin b)"
    then obtain b' where b': "r1 = Inr (ob_end b, b')" "buffer_ok K b' (ns @ [n])"
      "length (ob_storage b) \<le> length (ob_storage b')" by blast
    have pos: "0 < length (ob_storage b')" using Cons.prems(2) b'(3) by (rule less_le_trans)
    from Cons.prems(3) have ms: "\<forall>n\<in>set ms. K \<le> n \<and> n < 2 ^ 16" by simp
    from Cons.IH[OF b'(2) pos ms] obtain r2 where r2: "allocate_all K b' ms = Some r2"
      "case r2 of
        Inl e \<Rightarrow> e = CheckFailed \<and> length (ob_storage b') < sum_list (ns @ [n]) + sum_list ms
      | Inr (ids, b'') \<Rightarrow> ids = run_ids (sum_list (ns @ [n])) ms \<and> buffer_ok K b'' ((ns @ [n]) @ ms)"
      by blast
    show ?thesis
    proof (cases r2)
      case (Inl e)
      with r2 r1(1) b'(1,3) show ?thesis by simp
    next
      case (Inr p)
      with r2 r1(1) b'(1) d(2) show ?thesis by (cases p) simp
    qed
  qed
qed

lemma buffer_run:
  assumes ok: "buffer_ok K b ns" and k: "k < length ns"
  shows "runs_ok K (ob_operation_sizes b) (sum_list (take k ns)) [ns ! k]"
    and "(sum_list (take k ns) + ns ! k) * 8 < 2 ^ 32"
    and "sum_list (take k ns) + ns ! k \<le> ob_end b"
    and "run_ids 0 ns ! k = Index (sum_list (take k ns))"
proof -
  note d = buffer_okD[OF ok]
  from runs_ok_nth[OF d(6) k] show "runs_ok K (ob_operation_sizes b) (sum_list (take k ns)) [ns ! k]"
    by simp
  show le: "sum_list (take k ns) + ns ! k \<le> ob_end b"
    using sum_take_Suc_le[OF k] d(2) by simp
  from le d(3,4) show "(sum_list (take k ns) + ns ! k) * 8 < 2 ^ 32" by simp
  show "run_ids 0 ns ! k = Index (sum_list (take k ns))"
    using run_ids_nth[OF k, of 0] by simp
qed

lemma buffer_ok_steps:
  assumes ok: "buffer_ok K b ns" and k: "Suc k < length ns"
  shows "run_ids 0 ns ! k < run_ids 0 ns ! Suc k"
    and "Next K b (run_ids 0 ns ! k) = Inr (run_ids 0 ns ! Suc k)"
    and "Previous K b (run_ids 0 ns ! Suc k) = Inr (run_ids 0 ns ! k)"
proof -
  from k have k': "k < length ns" by simp
  note r = buffer_run[OF ok k']
  note K = buffer_okD(1)[OF ok]
  have nxt: "run_ids 0 ns ! Suc k = Index (sum_list (take k ns) + ns ! k)"
    using run_ids_nth[OF k, of 0] k' by (simp add: take_Suc_conv_app_nth)
  show "run_ids 0 ns ! k < run_ids 0 ns ! Suc k"
    unfolding nxt r(4) by (rule run_step(3)[OF r(1) K r(2)])
  show "Next K b (run_ids 0 ns ! k) = Inr (run_ids 0 ns ! Suc k)"
    unfolding nxt r(4) by (rule run_step(1)[OF r(1) K r(2)])
  show "Previous K b (run_ids 0 ns ! Suc k) = Inr (run_ids 0 ns ! k)"
    unfolding nxt r(4) by (rule run_step(2)[OF r(1) K r(2)])
qed

text \<open>
  Claim C4, as stated: after any sequence of allocations \<open>Next\<close> of an identifier is
  the identifier allocated next. With two slots per table entry, a run of 2 slots
  followed by a run of 1 slot gets the identifiers 0 and 16, but the second allocation
  writes its length over the table entry of the first (\<open>id(24) - 1 = 0\<close>), and
  \<open>Next(0)\<close> is 8.
\<close>

theorem Next_Previous_short_run_counterexample:
  "allocate_all 2 (OperationBuffer_new 2 16) [2, 1] =
     Some (Inr ([0, 16],
       \<lparr> ob_begin = 0, ob_storage = NewArray 16, ob_end = 3,
         ob_operation_sizes = [Some 1, Some 1, None, None, None, None, None, None] \<rparr>)) \<and>
   Next 2
     \<lparr> ob_begin = 0, ob_storage = NewArray 16, ob_end = 3,
       ob_operation_sizes = [Some 1, Some 1, None, None, None, None, None, None] \<rparr> 0 = Inr 8"
proof -
  have t: "(replicate 8 None)[0 := Some 2, Suc 0 := Some 1, 0 := Some (1::16 word)] =
           [Some 1, Some 1, None, None, None, None, None, None]"
    by (simp add: eval_nat_numeral)
  show ?thesis
    by (simp add: Allocate_def Allocate_store_def OperationBuffer_new_def NewArray_def
        u64_sub_def u64_def u32_sub_def u32_def Index_def OpIndex_id_def array_set_def
        array_get_def sizeof_OperationStorageSlot_def Let_def Next_def t)
qed

text \<open>
  Claim C4, amended: a new buffer of capacity \<open>c\<close> (positive, all byte offsets within
  \<open>uint32_t\<close>) receives any sequence of allocations whose runs have at least
  \<open>kSlotsPerId\<close> and at most 65535 slots. The sequence returns: either a \<open>Grow\<close> hits
  the capacity ceiling (\<open>CHECK\<close>), or it yields identifiers \<open>id_0 < id_1 < ...\<close>, one
  per allocation, with \<open>Next(id_k) = id_{k+1}\<close> and \<open>Previous(id_{k+1}) = id_k\<close>.
\<close>

theorem Next_Previous_inverse:
  assumes "0 < K" and "0 < c" and "c * 8 < 2 ^ 32" and "\<forall>n\<in>set ns. K \<le> n \<and> n < 2 ^ 16"
  shows "\<exists>r. allocate_all K (OperationBuffer_new K c) ns = Some r \<and>
           (case r of
              Inl e \<Rightarrow> e = CheckFailed \<and> c < sum_list ns
            | Inr (ids, b) \<Rightarrow>
                length ids = length ns \<and>
                (\<forall>k. Suc k < length ids \<longrightarrow>
                   ids ! k < ids ! Suc k \<and>
                   Next K b (ids ! k) = Inr (ids ! Suc k) \<and>
                   Previous K b (ids ! Suc k) = Inr (ids ! k)))"
proof -
  have ok: "buffer_ok K (OperationBuffer_new K c) []"
    using assms(1,3) by (rule buffer_ok_new)
  have pos: "0 < length (ob_storage (OperationBuffer_new K c))"
    using assms(2) by (simp add: OperationBuffer_new_def NewArray_def)
  from allocate_all_ok[OF ok pos assms(4)] obtain r where
    r: "allocate_all K (OperationBuffer_new K c) ns = Some r"
    "case r of
        Inl e \<Rightarrow> e = CheckFailed \<and> length (ob_storage (OperationBuffer_new K c)) < sum_list [] + sum_list ns
      | Inr (ids, b') \<Rightarrow> ids = run_ids (sum_list []) ns \<and> buffer_ok K b' ([] @ ns)" by blast
  show ?thesis
  proof (cases r)
    case (Inl e)
    with r show ?thesis by (simp add: OperationBuffer_new_def NewArray_def)
  next
    case (Inr p)
    obtain ids b where p: "p = (ids, b)" by (cases p)
    with r(2) Inr have ids: "ids = run_ids 0 ns" and b: "buffer_ok K b ns" by simp_all
    have "length ids = length ns" by (simp add: ids run_ids_length)
    moreover have "ids ! k < ids ! Suc k \<and> Next K b (ids ! k) = Inr (ids ! Suc k) \<and>
                   Previous K b (ids ! Suc k) = Inr (ids ! k)" if "Suc k < length ids" for k
      using buffer_ok_steps[OF b, of k] that by (simp add: ids run_ids_length)
    ultimately show ?thesis using r(1) Inr p by simp
  qed
qed

theorem Next_Previous_inverse_witness:
  "\<exists>ids b. allocate_all 2 (OperationBuffer_new 2 16) [2, 3, 2] = Some (Inr (ids, b)) \<and>
     Next 2 b (ids ! 0) = Inr (ids ! 1) \<and> Previous 2 b (ids ! 1) = Inr (ids ! 0) \<and>
     Next 2 b (ids ! 1) = Inr (ids ! 2) \<and> Previous 2 b (ids ! 2) = Inr (ids ! 1)"
proof -
  have "\<forall>n\<in>set [2, 3, 2::nat]. 2 \<le> n \<and> n < 2 ^ 16" by simp
  from Next_Previous_inverse[of 2 16 "[2, 3, 2]", OF _ _ _ this]
  obtain r where r: "allocate_all 2 (OperationBuffer_new 2 16) [2, 3, 2] = Some r"
    "case r of
              Inl e \<Rightarrow> e = CheckFailed \<and> 16 < sum_list [2, 3, 2::nat]
            | Inr (ids, b) \<Rightarrow>
                length ids = length [2, 3, 2::nat] \<and>
                (\<forall>k. Suc k < length ids \<longrightarrow>
                   ids ! k < ids ! Suc k \<and>
                   Next 2 b (ids ! k) = Inr (ids ! Suc k) \<and>
                   Previous 2 b (ids ! Suc k) = Inr (ids ! k))" by auto
  show ?thesis
  proof (cases r)
    case (Inl e)
    with r(2) show ?thesis by simp
  next
    case (Inr p)
    obtain ids b where p: "p = (ids, b)" by (cases p)
    with r(2) Inr have l: "length ids = 3" and
      s: "\<And>k. Suc k < length ids \<Longrightarrow> Next 2 b (ids ! k) = Inr (ids ! Suc k) \<and>
                   Previous 2 b (ids ! Suc k) = Inr (ids ! k)" by simp_all
    from s[of 0] s[of 1] l r(1) Inr p show ?thesis by (simp add: numeral_2_eq_2)
  qed
qed

lemma last_unit_id:
  assumes "0 < K" "0 < e" "K dvd e"
  shows "e div K - 1 = (e - 1) div (K::nat)"
proof -
  from assms(3) obtain q where q: "e = q * K" by (auto simp: dvd_def mult.commute)
  with assms(2) obtain q' where q': "q = Suc q'" by (cases q) simp_all
  have "(e - 1) div K = q'"
    using assms(1) by (intro div_nat_eqI) (simp_all add: q q' mult.commute)
  moreover have "e div K = Suc q'" using assms(1) by (simp add: q q')
  ultimately show ?thesis by simp
qed

text \<open>
  Claim C7, as stated: the size table holds the run length at the table index of the
  run's first unit and at the table index of its last unit. With two slots per table
  entry, a run of 3 slots at slot 0 is recorded at index 0 only; the index of its last
  unit (slot 2) is 1, where the next run (5 slots at slot 3) records its own length.
\<close>

theorem size_table_last_unit_counterexample:
  "allocate_all 2 (OperationBuffer_new 2 16) [3, 5] =
     Some (Inr ([0, 24],
       \<lparr> ob_begin = 0, ob_storage = NewArray 16, ob_end = 8,
         ob_operation_sizes = [Some 3, Some 5, None, Some 5, None, None, None, None] \<rparr>)) \<and>
   array_get [Some 3, Some 5, None, Some 5, None, None, None, None :: 16 word option]
     (OpIndex_id 2 (0 + (3 - 1) * sizeof_OperationStorageSlot)) = Inr 5"
proof -
  have t: "(replicate 8 None)[0 := Some 3, Suc 0 := Some 5, 3 := Some (5::16 word)] =
           [Some 3, Some 5, None, Some 5, None, None, None, None]"
    by (simp add: eval_nat_numeral)
  show ?thesis
    by (simp add: Allocate_def Allocate_store_def OperationBuffer_new_def NewArray_def
        u64_sub_def u64_def u32_sub_def u32_def Index_def OpIndex_id_def array_set_def
        array_get_def sizeof_OperationStorageSlot_def Let_def t)
qed

text \<open>
  Claim C7, amended: after any sequence of allocations (runs of at least \<open>kSlotsPerId\<close>
  and at most 65535 slots, into a new buffer), for every run of length \<open>n\<close> with
  identifier \<open>i\<close> the size table holds \<open>n\<close> at \<open>id(i)\<close> and at
  \<open>id(i + n slots) - 1\<close>, the index before the one of the run's end. That index is the
  one of the run's last unit whenever \<open>kSlotsPerId\<close> divides the end slot of the run
  (always, when there is one table entry per slot).
\<close>

theorem size_table_endpoints:
  assumes "0 < K" and "0 < c" and "c * 8 < 2 ^ 32" and "\<forall>n\<in>set ns. K \<le> n \<and> n < 2 ^ 16"
  shows "\<exists>r. allocate_all K (OperationBuffer_new K c) ns = Some r \<and>
           (case r of
              Inl e \<Rightarrow> e = CheckFailed \<and> c < sum_list ns
            | Inr (ids, b) \<Rightarrow>
                length ids = length ns \<and>
                (\<forall>k<length ns.
                   SlotCount K b (ids ! k) = Inr (of_nat (ns ! k)) \<and>
                   array_get (ob_operation_sizes b)
                     (OpIndex_id K (ids ! k + ns ! k * sizeof_OperationStorageSlot) - 1)
                     = Inr (of_nat (ns ! k)) \<and>
                   unat (of_nat (ns ! k) :: 16 word) = ns ! k \<and>
                   (K dvd Get (ids ! k) + ns ! k \<longrightarrow>
                      OpIndex_id K (ids ! k + ns ! k * sizeof_OperationStorageSlot) - 1
                      = OpIndex_id K (ids ! k + (ns ! k - 1) * sizeof_OperationStorageSlot))))"
proof -
  have ok: "buffer_ok K (OperationBuffer_new K c) []"
    using assms(1,3) by (rule buffer_ok_new)
  have pos: "0 < length (ob_storage (OperationBuffer_new K c))"
    using assms(2) by (simp add: OperationBuffer_new_def NewArray_def)
  from allocate_all_ok[OF ok pos assms(4)] obtain r where
    r: "allocate_all K (OperationBuffer_new K c) ns = Some r"
    "case r of
        Inl e \<Rightarrow> e = CheckFailed \<and> length (ob_storage (OperationBuffer_new K c)) < sum_list [] + sum_list ns
      | Inr (ids, b') \<Rightarrow> ids = run_ids (sum_list []) ns \<and> buffer_ok K b' ([] @ ns)" by blast
  show ?thesis
  proof (cases r)
    case (Inl e)
    with r show ?thesis by (simp add: OperationBuffer_new_def NewArray_def)
  next
    case (Inr p)
    obtain ids b where p: "p = (ids, b)" by (cases p)
    with r(2) Inr have ids: "ids = run_ids 0 ns" and b: "buffer_ok K b ns" by simp_all
    have len: "length ids = length ns" by (simp add: ids run_ids_length)
    have "SlotCount K b (ids ! k) = Inr (of_nat (ns ! k)) \<and>
          array_get (ob_operation_sizes b)
            (OpIndex_id K (ids ! k + ns ! k * sizeof_OperationStorageSlot) - 1)
            = Inr (of_nat (ns ! k)) \<and>
          unat (of_nat (ns ! k) :: 16 word) = ns ! k \<and>
          (K dvd Get (ids ! k) + ns ! k \<longrightarrow>
             OpIndex_id K (ids ! k + ns ! k * sizeof_OperationStorageSlot) - 1
             = OpIndex_id K (ids ! k + (ns ! k - 1) * sizeof_OperationStorageSlot))"
      if k: "k < length ns" for k
    proof -
      let ?s = "sum_list (take k ns)" and ?n = "ns ! k"
      note run = buffer_run[OF b k]
      note st = run_step[OF run(1) assms(1) run(2)]
      have id: "ids ! k = Index ?s" by (simp add: ids run(4))
      from run(1) have n: "K \<le> ?n" "?n < 2 ^ 16" by simp_all
      have i8: "Index ?s = ?s * 8" using run(2) by (intro Index_id) simp
      have e: "Index ?s + ?n * sizeof_OperationStorageSlot = (?s + ?n) * 8"
        by (simp add: i8 sizeof_OperationStorageSlot_def algebra_simps)
      have l: "Index ?s + (?n - 1) * sizeof_OperationStorageSlot = (?s + ?n - 1) * 8"
        using n assms(1) by (simp add: i8 sizeof_OperationStorageSlot_def algebra_simps)
      have "OpIndex_id K (Index ?s + ?n * sizeof_OperationStorageSlot) - 1
            = OpIndex_id K (Index ?s + (?n - 1) * sizeof_OperationStorageSlot)"
        if "K dvd Get (Index ?s) + ?n"
      proof -
        from that have "K dvd ?s + ?n" by (simp only: st(6))
        moreover have "0 < ?s + ?n" using n assms(1) by simp
        ultimately have "(?s + ?n) div K - 1 = (?s + ?n - 1) div K"
          using assms(1) by (intro last_unit_id)
        then show ?thesis by (simp only: e l OpIndex_id_slot)
      qed
      with st(4,5) unat_of_nat_16[OF n(2)] show ?thesis by (simp only: id) blast
    qed
    with len r(1) Inr p show ?thesis by simp
  qed
qed

theorem size_table_endpoints_witness:
  "\<exists>ids b. allocate_all 2 (OperationBuffer_new 2 16) [3, 5] = Some (Inr (ids, b)) \<and>
     SlotCount 2 b (ids ! 0) = Inr 3 \<and>
     array_get (ob_operation_sizes b) (OpIndex_id 2 (ids ! 0 + 3 * sizeof_OperationStorageSlot) - 1)
       = Inr 3 \<and>
     SlotCount 2 b (ids ! 1) = Inr 5 \<and>
     array_get (ob_operation_sizes b) (OpIndex_id 2 (ids ! 1 + 5 * sizeof_OperationStorageSlot) - 1)
       = Inr 5"
proof -
  have "\<forall>n\<in>set [3, 5::nat]. 2 \<le> n \<and> n < 2 ^ 16" by simp
  from size_table_endpoints[of 2 16 "[3, 5]", OF _ _ _ this]
  obtain r where r: "allocate_all 2 (OperationBuffer_new 2 16) [3, 5] = Some r"
    "case r of
              Inl e \<Rightarrow> e = CheckFailed \<and> 16 < sum_list [3, 5::nat]
            | Inr (ids, b) \<Rightarrow>
                length ids = length [3, 5::nat] \<and>
                (\<forall>k<length [3, 5::nat].
                   SlotCount 2 b (ids ! k) = Inr (of_nat ([3, 5] ! k)) \<and>
                   array_get (ob_operation_sizes b)
                     (OpIndex_id 2 (ids ! k + [3, 5] ! k * sizeof_OperationStorageSlot) - 1)
                     = Inr (of_nat ([3, 5] ! k)) \<and>
                   unat (of_nat ([3, 5] ! k) :: 16 word) = [3, 5] ! k \<and>
                   (2 dvd Get (ids ! k) + [3, 5] ! k \<longrightarrow>
                      OpIndex_id 2 (ids ! k + [3, 5] ! k * sizeof_OperationStorageSlot) - 1
                      = OpIndex_id 2 (ids ! k + ([3, 5] ! k - 1) * sizeof_OperationStorageSlot)))"
    by auto
  show ?thesis
  proof (cases r)
    case (Inl e)
    with r(2) show ?thesis by simp
  next
    case (Inr p)
    obtain ids b where p: "p = (ids, b)" by (cases p)
    with r(2) Inr have
      s: "\<And>k. k < 2 \<Longrightarrow> SlotCount 2 b (ids ! k) = Inr (of_nat ([3, 5] ! k)) \<and>
                   array_get (ob_operation_sizes b)
                     (OpIndex_id 2 (ids ! k + [3, 5] ! k * sizeof_OperationStorageSlot) - 1)
                     = Inr (of_nat ([3, 5] ! k))" by simp
    from s[of 0] s[of 1] r(1) Inr p show ?thesis by simp
  qed
qed

section \<open>The arena: growth\<close>

lemma take_drop_prefix: "s + n \<le> S \<Longrightarrow> take n (drop s (take S xs)) = take n (drop s xs)"
  by (simp add: drop_take min_def)

lemma buffer_ok_pos:
  assumes "buffer_ok K b ns" "k < length ns"
  shows "0 < length (ob_storage b)"
proof -
  note d = buffer_okD[OF assms(1)]
  note r = buffer_run[OF assms]
  from r(1) d(1) have "0 < ns ! k" by simp
  with r(3) d(3) show ?thesis by linarith
qed

text \<open>
  Claim C3: in a buffer that holds the runs \<open>ns\<close>, an \<open>Allocate\<close> whose capacity test
  fails (\<open>end_cap_ - end_ < slot_count\<close>) calls \<open>Grow\<close>. The call returns: either the
  \<open>CHECK\<close> of \<open>Grow\<close> fails at the capacity ceiling, or the buffer has a new and
  longer backing array, and for every identifier issued before, the record read through
  \<open>Get\<close> (all slots of its run) and its slot count are the same as before the call.
\<close>

theorem Grow_keeps_records:
  assumes "buffer_ok K b ns" and "k < length ns" and "K \<le> n" and "n < 2 ^ 16"
    and "length (ob_storage b) - ob_end b < n"
  shows "\<exists>r. Allocate K b n = Some r \<and>
           (case r of
              Inl e \<Rightarrow> e = CheckFailed
            | Inr (ptr, b') \<Rightarrow>
                ob_begin b' = ob_begin b + 1 \<and>
                length (ob_storage b) < length (ob_storage b') \<and>
                record_at b' (run_ids 0 ns ! k) (ns ! k) = record_at b (run_ids 0 ns ! k) (ns ! k) \<and>
                length (record_at b (run_ids 0 ns ! k) (ns ! k)) = ns ! k \<and>
                SlotCount K b' (run_ids 0 ns ! k) = SlotCount K b (run_ids 0 ns ! k))"
proof -
  let ?S = "ob_end b" and ?s = "sum_list (take k ns)"
  note d = buffer_okD[OF assms(1)]
  note run = buffer_run[OF assms(1,2)]
  note st = run_step[OF run(1) d(1) run(2)]
  have pos: "0 < length (ob_storage b)" using assms(1,2) by (rule buffer_ok_pos)
  have grow: "length (ob_storage b) < ?S + n" using assms(5) d(3) by simp
  from Allocate_ok[OF assms(1) pos assms(3,4)] obtain r where r: "Allocate K b n = Some r"
    "r = Inl CheckFailed \<and> length (ob_storage b) < ob_end b + n \<or>
            (\<exists>b'. r = Inr (ob_end b, b') \<and> buffer_ok K b' (ns @ [n]) \<and>
               take (ob_end b) (ob_storage b') = take (ob_end b) (ob_storage b) \<and>
               ob_end b' = ob_end b + n \<and>
               length (ob_storage b) \<le> length (ob_storage b') \<and>
               ob_begin b' = (if length (ob_storage b) < ob_end b + n then ob_begin b + 1
                              else ob_begin b))" by blast
  from r(2) show ?thesis
  proof
    assume "r = Inl CheckFailed \<and> length (ob_storage b) < ob_end b + n"
    with r(1) show ?thesis by simp
  next
    assume "\<exists>b'. r = Inr (ob_end b, b') \<and> buffer_ok K b' (ns @ [n]) \<and>
               take (ob_end b) (ob_storage b') = take (ob_end b) (ob_storage b) \<and>
               ob_end b' = ob_end b + n \<and>
               length (ob_storage b) \<le> length (ob_storage b') \<and>
               ob_begin b' = (if length (ob_storage b) < ob_end b + n then ob_begin b + 1
                              else ob_begin b)"
    then obtain b' where b': "r = Inr (ob_end b, b')" "buffer_ok K b' (ns @ [n])"
      "take ?S (ob_storage b') = take ?S (ob_storage b)" "ob_end b' = ?S + n"
      "ob_begin b' = (if length (ob_storage b) < ob_end b + n then ob_begin b + 1
                              else ob_begin b)" by blast
    note d' = buffer_okD[OF b'(2)]
    have k': "k < length (ns @ [n])" using assms(2) by simp
    have same: "take k (ns @ [n]) = take k ns" "(ns @ [n]) ! k = ns ! k"
      using assms(2) by (simp_all add: nth_append)
    note run' = buffer_run[OF b'(2) k', unfolded same]
    note st' = run_step[OF run'(1) d(1) run'(2)]
    have "record_at b' (Index ?s) (ns ! k) = take (ns ! k) (drop ?s (take ?S (ob_storage b')))"
      using run(3) by (simp add: record_at_def st(6) take_drop_prefix)
    also have "\<dots> = record_at b (Index ?s) (ns ! k)"
      using run(3) by (simp add: record_at_def st(6) take_drop_prefix b'(3))
    finally have rec: "record_at b' (Index ?s) (ns ! k) = record_at b (Index ?s) (ns ! k)" .
    have len: "length (record_at b (Index ?s) (ns ! k)) = ns ! k"
      using run(3) d(3) by (simp add: record_at_def st(6))
    have bigger: "length (ob_storage b) < length (ob_storage b')"
      using grow d'(3) b'(4) by simp
    from rec len bigger st(4) st'(4) b'(5) grow r(1) b'(1) show ?thesis
      by (simp add: run(4))
  qed
qed

theorem Grow_keeps_records_witness:
  "Allocate 2 \<lparr> ob_begin = 0, ob_storage = [Some 7, Some 9], ob_end = 2,
                ob_operation_sizes = [Some 2] \<rparr> 2 =
     Some (Inr (2, \<lparr> ob_begin = 1, ob_storage = [Some 7, Some 9, None, None], ob_end = 4,
                     ob_operation_sizes = [Some 2, Some 2] \<rparr>)) \<and>
   record_at \<lparr> ob_begin = 1, ob_storage = [Some 7, Some 9, None, None], ob_end = 4,
               ob_operation_sizes = [Some 2, Some 2] \<rparr> 0 2 =
   record_at \<lparr> ob_begin = 0, ob_storage = [Some 7, Some 9], ob_end = 2,
               ob_operation_sizes = [Some 2] \<rparr> 0 2 \<and>
   record_at \<lparr> ob_begin = 0, ob_storage = [Some 7, Some 9], ob_end = 2,
               ob_operation_sizes = [Some 2] \<rparr> 0 2 = [Some 7, Some 9]"
proof -
  let ?b = "\<lparr> ob_begin = 0, ob_storage = [Some 7, Some 9], ob_end = 2,
              ob_operation_sizes = [Some 2] \<rparr>"
  let ?b' = "\<lparr> ob_begin = 1, ob_storage = [Some 7, Some 9, None, None], ob_end = 4,
              ob_operation_sizes = [Some 2, Some 2] \<rparr>"
  have ok: "buffer_ok 2 ?b [2]"
    by (simp add: buffer_ok_def array_get_def sizeof_OperationStorageSlot_def)
  have g: "Grow_loop 4 4 = Some 4" by (subst Grow_loop.simps) simp
  have rp: "replicate 2 (None :: 64 word option) = [None, None]" by (simp add: numeral_2_eq_2)
  have ev: "Allocate 2 ?b 2 = Some (Inr (2, ?b'))"
    by (simp add: Allocate_def Grow_def g Allocate_store_def NewArray_def memcpy_def
        OperationBuffer_capacity_def OperationBuffer_size_def
        u64_sub_def u64_def u32_sub_def u32_def Index_def OpIndex_id_def array_set_def
        sizeof_OperationStorageSlot_def Let_def rp)
  from Grow_keeps_records[OF ok, of 0 2] ev
  have "record_at ?b' (run_ids 0 [2] ! 0) ([2] ! 0) = record_at ?b (run_ids 0 [2] ! 0) ([2] ! 0)"
    by simp
  then have "record_at ?b' 0 2 = record_at ?b 0 2" by (simp add: Index_def u32_def)
  moreover have "record_at ?b 0 2 = [Some 7, Some 9]" by (simp add: record_at_def Get_def)
  ultimately show ?thesis using ev by simp
qed

section \<open>The arena: replacing an operation\<close>

lemma runs_ok_split:
  assumes "runs_ok K sizes 0 ns" "k < length ns"
  shows "runs_ok K sizes 0 (take k ns)"
    and "runs_ok K sizes (sum_list (take k ns) + ns ! k) (drop (Suc k) ns)"
proof -
  have "ns = take k ns @ [ns ! k] @ drop (Suc k) ns"
    using assms(2) by (simp add: id_take_nth_drop)
  then have "runs_ok K sizes 0 (take k ns @ [ns ! k] @ drop (Suc k) ns)"
    using assms(1) by simp
  then show "runs_ok K sizes 0 (take k ns)"
    and "runs_ok K sizes (sum_list (take k ns) + ns ! k) (drop (Suc k) ns)"
    unfolding runs_ok_append by simp_all
qed

lemma runs_ok_join:
  assumes "runs_ok K sizes 0 (take k ns)" "runs_ok K sizes (sum_list (take k ns)) [ns ! k]"
    "runs_ok K sizes (sum_list (take k ns) + ns ! k) (drop (Suc k) ns)" "k < length ns"
  shows "runs_ok K sizes 0 ns"
proof -
  have "runs_ok K sizes 0 (take k ns @ [ns ! k] @ drop (Suc k) ns)"
    unfolding runs_ok_append using assms(1,2,3) by simp
  moreover have "ns = take k ns @ [ns ! k] @ drop (Suc k) ns"
    using assms(4) by (simp add: id_take_nth_drop)
  ultimately show ?thesis by simp
qed

lemma Replace_buffer_ok:
  assumes ok: "buffer_ok K b ns" and k: "k < length ns"
    and m1: "K \<le> length op" and m2: "length op \<le> ns ! k"
  shows "\<exists>b'. Replace_buffer K b (run_ids 0 ns ! k) op = Some (Inr b') \<and>
           buffer_ok K b' ns \<and> ob_end b' = ob_end b \<and> ob_begin b' = ob_begin b \<and>
           record_at b' (run_ids 0 ns ! k) (length op) = map Some op"
proof -
  let ?S = "ob_end b" and ?L = "length (ob_storage b)" and ?sz = "ob_operation_sizes b"
  let ?s = "sum_list (take k ns)" and ?n = "ns ! k" and ?m = "length op"
  let ?a = "?s div K" and ?e = "(?s + ?n) div K"
  note d = buffer_okD[OF ok]
  note run = buffer_run[OF ok k]
  note st = run_step[OF run(1) d(1) run(2)]
  from run(1) have n: "K \<le> ?n" "?n < 2 ^ 16" by simp_all
  have m16: "?m < 2 ^ 16" using m2 n(2) by simp
  have i8: "Index ?s = ?s * 8" using run(2) by (intro Index_id) simp
  have sL: "?s + ?n \<le> ?L" using run(3) d(3) by simp
  \<comment> \<open>the constructor of the scope\<close>
  let ?scope = "\<lparr> rs_replaced = Index ?s, rs_old_end = (ob_begin b, ?S),
                  rs_old_slot_count = (of_nat ?n :: 16 word) \<rparr>"
  let ?b1 = "b\<lparr> ob_end := ?s \<rparr>"
  have new: "ReplaceScope_new K b (Index ?s) = Inr (?scope, ?b1)"
    by (simp add: ReplaceScope_new_def st(4) st(6))
  have ok1: "buffer_ok K ?b1 (take k ns)"
    using d sL runs_ok_split(1)[OF d(6) k]
    by (simp add: buffer_ok_def sizeof_OperationStorageSlot_def)
  \<comment> \<open>\<open>Op::New\<close> inside the scope: no \<open>Grow\<close>\<close>
  have fit: "ob_end ?b1 + ?m \<le> length (ob_storage ?b1)" using sL m2 by simp
  have sub: "u64_sub ?L ?s = ?L - ?s" using sL d(4) by (intro u64_sub_le) simp_all
  from Allocate_store_ok[OF ok1 m1 m16 fit] obtain b2 where b2:
    "Allocate_store K ?b1 ?m = Inr (?s, b2)" "ob_storage b2 = ob_storage b"
    "ob_begin b2 = ob_begin b" "length (ob_operation_sizes b2) = length ?sz"
    "\<And>i. i < ?a \<or> (?s + ?m) div K \<le> i \<Longrightarrow> array_get (ob_operation_sizes b2) i = array_get ?sz i"
    by auto
  have nlt: "\<not> ?L - ?s < ?m" using sL m2 by arith
  have alloc: "Allocate K ?b1 ?m = Some (Inr (?s, b2))"
    using b2(1) by (simp add: Allocate_def sub nlt)
  let ?st = "take ?s (ob_storage b) @ map Some op @ drop (?s + ?m) (ob_storage b)"
  let ?b3 = "b2\<lparr> ob_storage := ?st \<rparr>"
  have opnew: "Op_New K ?b1 op = Some (Inr (?s, ?b3))"
    using fit by (simp add: Op_New_def alloc write_slots_def b2(2))
  \<comment> \<open>the destructor\<close>
  have un: "unat (of_nat ?n :: 16 word) = ?n" using n(2) by (rule unat_of_nat_16)
  have u32n: "u32 ?n = ?n" using n(2) by (intro u32_id) simp
  have e8: "u32 (?s * 8 + ?n * 8) = (?s + ?n) * 8"
    using run(2) by (intro trans[OF u32_id]) (simp_all add: algebra_simps)
  have ae: "?a < ?e" using div_step[OF d(1) n(1)] .
  have eL: "?e \<le> ?L div K" using sL by (intro div_le_mono)
  have e32: "?e < 2 ^ 32"
  proof -
    have "?e \<le> ?s + ?n" by (rule div_le_dividend)
    also have "\<dots> < 2 ^ 32" using run(2) by simp
    finally show ?thesis .
  qed
  have c: "u32_sub ?e 1 = ?e - 1" using ae e32 by (intro u32_sub_1) simp_all
  have la: "?a < length (ob_operation_sizes b2)" and lc: "?e - 1 < length (ob_operation_sizes b2)"
    using ae eL d(5) b2(4) by simp_all
  have j1: "OpIndex_id K (rs_replaced ?scope) = ?a"
    by (simp add: i8 OpIndex_id_slot)
  have "u32 (rs_replaced ?scope +
          u32 (unat (rs_old_slot_count ?scope)) * sizeof_OperationStorageSlot) = (?s + ?n) * 8"
    by (simp add: i8 un u32n e8 sizeof_OperationStorageSlot_def)
  then have j2: "u32_sub (OpIndex_id K (u32 (rs_replaced ?scope +
          u32 (unat (rs_old_slot_count ?scope)) * sizeof_OperationStorageSlot))) 1 = ?e - 1"
    by (simp only: OpIndex_id_slot c)
  let ?s4 = "(ob_operation_sizes b2)[?a := Some (of_nat ?n), ?e - 1 := Some (of_nat ?n)]"
  let ?b' = "?b3\<lparr> ob_end := ?S, ob_operation_sizes := ?s4 \<rparr>"
  have del: "ReplaceScope_delete K ?scope ?b3 = Inr ?b'"
    unfolding ReplaceScope_delete_def j1 j2
    using la lc by (simp add: array_set_Inr b2(3))
  have res: "Replace_buffer K b (Index ?s) op = Some (Inr ?b')"
    by (simp add: Replace_buffer_def new opnew del)
  \<comment> \<open>the size table afterwards\<close>
  have get: "array_get ?s4 i =
      (if i = ?e - 1 \<or> i = ?a then Inr (of_nat ?n) else array_get (ob_operation_sizes b2) i)" for i
    using la lc by (auto simp: array_get_def nth_list_update)
  have me: "(?s + ?m) div K \<le> ?e" using m2 by (intro div_le_mono) simp
  have below: "array_get ?s4 i = array_get ?sz i" if "i < ?a" for i
  proof -
    from that ae have "i \<noteq> ?e - 1" "i \<noteq> ?a" by arith+
    with get[of i] have "array_get ?s4 i = array_get (ob_operation_sizes b2) i"
      by (simp only: if_False simp_thms)
    with b2(5)[of i] that show ?thesis by simp
  qed
  have above: "array_get ?s4 i = array_get ?sz i" if "?e \<le> i" for i
  proof -
    from that ae have "i \<noteq> ?e - 1" "i \<noteq> ?a" by arith+
    with get[of i] have "array_get ?s4 i = array_get (ob_operation_sizes b2) i"
      by (simp only: if_False simp_thms)
    with b2(5)[of i] that me show ?thesis by simp
  qed
  have r1: "runs_ok K ?s4 0 (take k ns)"
  proof (rule runs_ok_below[OF runs_ok_split(1)[OF d(6) k] d(1)])
    show "0 + sum_list (take k ns) \<le> ?s" by simp
    fix i assume "i < ?s div K"
    then show "array_get ?s4 i = array_get ?sz i" by (rule below)
  qed
  have r2: "runs_ok K ?s4 ?s [?n]"
    using n get[of ?a] get[of "?e - 1"] by simp
  have r3: "runs_ok K ?s4 (?s + ?n) (drop (Suc k) ns)"
  proof (rule runs_ok_above[OF runs_ok_split(2)[OF d(6) k] d(1)])
    fix i assume "(?s + ?n) div K \<le> i"
    then show "array_get ?s4 i = array_get ?sz i" by (rule above)
  qed
  have runs: "runs_ok K ?s4 0 ns" using r1 r2 r3 k by (rule runs_ok_join)
  have len: "length ?st = ?L" using sL m2 by simp
  have ok': "buffer_ok K ?b' ns"
    using d runs len b2(4) by (simp add: buffer_ok_def sizeof_OperationStorageSlot_def)
  have "drop ?s ?st = map Some op @ drop (?s + ?m) (ob_storage b)"
    using sL by simp
  then have rec: "record_at ?b' (Index ?s) ?m = map Some op"
    by (simp add: record_at_def st(6))
  from res ok' rec show ?thesis by (simp add: run(4) b2(3))
qed

text \<open>
  Claim C1, as stated: every replacement by a run of no more slots than the original
  leaves the steps across the replaced run as they were. With two slots per table entry
  and two runs of 2 slots, replacing the first by a run of 1 slot writes the table at
  index \<open>id(8) - 1\<close>, which wraps to the largest \<open>uint32_t\<close>, outside the table; and
  replacing the second by a run of 1 slot writes over the table entry of the first
  (\<open>id(24) - 1 = 0\<close>), after which \<open>Previous\<close> of the replaced identifier is 8, not 0.
\<close>

theorem Replace_short_run_counterexample:
  "buffer_ok 2
     \<lparr> ob_begin = 0, ob_storage = [Some 10, Some 11, Some 20, Some 21], ob_end = 4,
       ob_operation_sizes = [Some 2, Some 2] \<rparr> [2, 2] \<and>
   Replace_buffer 2
     \<lparr> ob_begin = 0, ob_storage = [Some 10, Some 11, Some 20, Some 21], ob_end = 4,
       ob_operation_sizes = [Some 2, Some 2] \<rparr> 0 [9] = Some (Inl OutOfBounds) \<and>
   Replace_buffer 2
     \<lparr> ob_begin = 0, ob_storage = [Some 10, Some 11, Some 20, Some 21], ob_end = 4,
       ob_operation_sizes = [Some 2, Some 2] \<rparr> 16 [9] =
     Some (Inr \<lparr> ob_begin = 0, ob_storage = [Some 10, Some 11, Some 9, Some 21], ob_end = 4,
                  ob_operation_sizes = [Some 1, Some 2] \<rparr>) \<and>
   Previous 2
     \<lparr> ob_begin = 0, ob_storage = [Some 10, Some 11, Some 20, Some 21], ob_end = 4,
       ob_operation_sizes = [Some 2, Some 2] \<rparr> 16 = Inr 0 \<and>
   Previous 2
     \<lparr> ob_begin = 0, ob_storage = [Some 10, Some 11, Some 9, Some 21], ob_end = 4,
       ob_operation_sizes = [Some 1, Some 2] \<rparr> 16 = Inr 8"
  by (simp add: buffer_ok_def Replace_buffer_def ReplaceScope_new_def ReplaceScope_delete_def
      SlotCount_def Op_New_def write_slots_def Get_def Allocate_def Allocate_store_def
      u64_sub_def u64_def u32_sub_def u32_def Index_def OpIndex_id_def array_set_def
      array_get_def sizeof_OperationStorageSlot_def Let_def Previous_def)

text \<open>
  Claim C1, amended: in a buffer that holds the runs \<open>ns\<close>, replacing the \<open>k\<close>-th
  operation by one that needs at least \<open>kSlotsPerId\<close> slots and no more slots than the
  run it replaces returns, without \<open>Grow\<close>. Afterwards \<open>end_\<close> is where it was, the
  size table holds the original run length at both table entries of the replaced run
  (the index of its first slot, and the index before the one of its end), \<open>Next\<close> of
  the replaced identifier and \<open>Previous\<close> of the identifier after the run are what
  they were, and so is every other step between neighbouring runs; the run starts
  with the new operation.
\<close>

theorem Replace_keeps_steps:
  assumes "buffer_ok K b ns" and "k < length ns"
    and "K \<le> length op" and "length op \<le> ns ! k"
  shows "\<exists>b'. Replace_buffer K b (run_ids 0 ns ! k) op = Some (Inr b') \<and>
           ob_end b' = ob_end b \<and> ob_begin b' = ob_begin b \<and>
           SlotCount K b' (run_ids 0 ns ! k) = Inr (of_nat (ns ! k)) \<and>
           array_get (ob_operation_sizes b')
             (OpIndex_id K (run_ids 0 ns ! k + ns ! k * sizeof_OperationStorageSlot) - 1)
             = Inr (of_nat (ns ! k)) \<and>
           unat (of_nat (ns ! k) :: 16 word) = ns ! k \<and>
           Next K b' (run_ids 0 ns ! k)
             = Inr (run_ids 0 ns ! k + ns ! k * sizeof_OperationStorageSlot) \<and>
           Next K b (run_ids 0 ns ! k)
             = Inr (run_ids 0 ns ! k + ns ! k * sizeof_OperationStorageSlot) \<and>
           Previous K b' (run_ids 0 ns ! k + ns ! k * sizeof_OperationStorageSlot)
             = Inr (run_ids 0 ns ! k) \<and>
           Previous K b (run_ids 0 ns ! k + ns ! k * sizeof_OperationStorageSlot)
             = Inr (run_ids 0 ns ! k) \<and>
           (\<forall>j. Suc j < length ns \<longrightarrow>
              Next K b' (run_ids 0 ns ! j) = Next K b (run_ids 0 ns ! j) \<and>
              Previous K b' (run_ids 0 ns ! Suc j) = Previous K b (run_ids 0 ns ! Suc j)) \<and>
           record_at b' (run_ids 0 ns ! k) (length op) = map Some op"
proof -
  from Replace_buffer_ok[OF assms] obtain b' where b':
    "Replace_buffer K b (run_ids 0 ns ! k) op = Some (Inr b')" "buffer_ok K b' ns"
    "ob_end b' = ob_end b" "ob_begin b' = ob_begin b"
    "record_at b' (run_ids 0 ns ! k) (length op) = map Some op" by blast
  let ?s = "sum_list (take k ns)" and ?n = "ns ! k"
  note K = buffer_okD(1)[OF assms(1)]
  note run = buffer_run[OF assms(1,2)]
  note run' = buffer_run[OF b'(2) assms(2)]
  note st = run_step[OF run(1) K run(2)]
  note st' = run_step[OF run'(1) K run'(2)]
  from run(1) have n16: "?n < 2 ^ 16" by simp
  have i8: "Index ?s = ?s * 8" using run(2) by (intro Index_id) simp
  have i8': "Index (?s + ?n) = (?s + ?n) * 8" using run(2) by (rule Index_id)
  have nx: "Index ?s + ?n * sizeof_OperationStorageSlot = Index (?s + ?n)"
    unfolding i8 i8' sizeof_OperationStorageSlot_def by (simp add: algebra_simps)
  have all: "Next K b' (run_ids 0 ns ! j) = Next K b (run_ids 0 ns ! j) \<and>
             Previous K b' (run_ids 0 ns ! Suc j) = Previous K b (run_ids 0 ns ! Suc j)"
    if "Suc j < length ns" for j
    using buffer_ok_steps(2,3)[OF assms(1) that] buffer_ok_steps(2,3)[OF b'(2) that] by simp
  from b' st(1,2) st'(1,2,4,5) unat_of_nat_16[OF n16] all show ?thesis
    by (simp only: run(4) nx) blast
qed

theorem Replace_keeps_steps_witness:
  "Replace_buffer 2
     \<lparr> ob_begin = 0,
       ob_storage = [Some 10, Some 11, Some 12, Some 13, Some 20, Some 21],
       ob_end = 6, ob_operation_sizes = [Some 4, Some 4, Some 2] \<rparr> 0 [1, 2] =
   Some (Inr
     \<lparr> ob_begin = 0,
       ob_storage = [Some 1, Some 2, Some 12, Some 13, Some 20, Some 21],
       ob_end = 6, ob_operation_sizes = [Some 4, Some 4, Some 2] \<rparr>) \<and>
   Next 2
     \<lparr> ob_begin = 0,
       ob_storage = [Some 1, Some 2, Some 12, Some 13, Some 20, Some 21],
       ob_end = 6, ob_operation_sizes = [Some 4, Some 4, Some 2] \<rparr> 0 = Inr 32 \<and>
   Previous 2
     \<lparr> ob_begin = 0,
       ob_storage = [Some 1, Some 2, Some 12, Some 13, Some 20, Some 21],
       ob_end = 6, ob_operation_sizes = [Some 4, Some 4, Some 2] \<rparr> 32 = Inr 0"
proof -
  let ?b = "\<lparr> ob_begin = 0,
       ob_storage = [Some 10, Some 11, Some 12, Some 13, Some 20, Some 21],
       ob_end = 6, ob_operation_sizes = [Some 4, Some 4, Some 2] \<rparr>"
  let ?b' = "\<lparr> ob_begin = 0,
       ob_storage = [Some 1, Some 2, Some 12, Some 13, Some 20, Some 21],
       ob_end = 6, ob_operation_sizes = [Some 4, Some 4, Some 2] \<rparr>"
  have ok: "buffer_ok 2 ?b [4, 2]"
    by (simp add: buffer_ok_def array_get_def sizeof_OperationStorageSlot_def)
  have ev: "Replace_buffer 2 ?b 0 [1, 2] = Some (Inr ?b')"
    by (simp add: Replace_buffer_def ReplaceScope_new_def ReplaceScope_delete_def SlotCount_def
        Op_New_def write_slots_def Get_def Allocate_def Allocate_store_def
        u64_sub_def u64_def u32_sub_def u32_def Index_def OpIndex_id_def array_set_def
        array_get_def sizeof_OperationStorageSlot_def Let_def)
  from Replace_keeps_steps[OF ok, of 0 "[1, 2]"] obtain b' where
    "Replace_buffer 2 ?b 0 [1, 2] = Some (Inr b')" "Next 2 b' 0 = Inr 32"
    "Previous 2 b' 32 = Inr 0"
    by (auto simp: Index_def u32_def sizeof_OperationStorageSlot_def)
  with ev show ?thesis by simp
qed

end
